theory Spec2Isabelle
  imports Main "HOL-Library.Word" "HOL-Library.Signed_Division"
begin

unbundle bit_operations_syntax

section \<open>The driver state\<close>

text \<open>
  The Arduino type \<open>byte\<close> is an unsigned 8-bit integer. Arguments of type \<open>int\<close> are
  mathematical integers here: the only arithmetic the driver performs on them
  (\<open>0xB0 + X\<close>, \<open>8*Y\<close>, \<open>Y*8+i\<close>, \<open>row/8\<close>, \<open>row%8\<close>) stays far inside a 16-bit \<open>int\<close> for
  every coordinate of the panel (arguments so large that \<open>8*Y\<close> leaves the machine
  \<open>int\<close> are outside the model), and the conversion to \<open>byte\<close> at each call of \<open>_write\<close>
  is written out as \<open>of_int\<close> (reduction modulo 256). Division and remainder truncate
  towards zero, as in C++ (\<open>sdiv\<close>, \<open>smod\<close>).
\<close>

type_synonym byte = "8 word"

definition OLED_WIDTH :: int where "OLED_WIDTH = 128"
definition OLED_HEIGHT :: int where "OLED_HEIGHT = 64"

definition OLED_ADDRESS :: byte where "OLED_ADDRESS = 0x3C"
definition OLED_DATA_MODE :: byte where "OLED_DATA_MODE = 0x40"
definition OLED_CMD_MODE :: byte where "OLED_CMD_MODE = 0x80"
definition OLED_NORMALDISPLAY :: byte where "OLED_NORMALDISPLAY = 0xA6"
definition OLED_OFF :: byte where "OLED_OFF = 0xAE"
definition OLED_ON :: byte where "OLED_ON = 0xAF"
definition OLED_SETDISPLAYCLOCKDIV :: byte where "OLED_SETDISPLAYCLOCKDIV = 0xD5"
definition OLED_SETMULTIPLEX :: byte where "OLED_SETMULTIPLEX = 0xA8"
definition OLED_SETDISPLAYOFFSET :: byte where "OLED_SETDISPLAYOFFSET = 0xD3"
definition OLED_STARTLINE :: byte where "OLED_STARTLINE = 0x40"
definition OLED_CHARGEPUMP :: byte where "OLED_CHARGEPUMP = 0x8D"
definition OLED_SETMEMORYMODE :: byte where "OLED_SETMEMORYMODE = 0x20"
definition OLED_SEGREMAP :: byte where "OLED_SEGREMAP = 0xA0"
definition OLED_COMSCANDEC :: byte where "OLED_COMSCANDEC = 0xC8"
definition OLED_SETCOMPINS :: byte where "OLED_SETCOMPINS = 0xDA"
definition OLED_SETCONTRAST :: byte where "OLED_SETCONTRAST = 0x81"
definition OLED_SETPRECHARGE :: byte where "OLED_SETPRECHARGE = 0xD9"
definition OLED_SETVCOMDETECT :: byte where "OLED_SETVCOMDETECT = 0xDB"
definition OLED_DISPLAYALLONRESUME :: byte where "OLED_DISPLAYALLONRESUME = 0xA4"
definition OLED_SCROLLOFF :: byte where "OLED_SCROLLOFF = 0x2E"
definition OLED_INVERTDISPLAY :: byte where "OLED_INVERTDISPLAY = 0xA7"
definition OLED_LOWCOLUMN :: int where "OLED_LOWCOLUMN = 0x00"
definition OLED_HIGHCOLUMN :: int where "OLED_HIGHCOLUMN = 0x10"

text \<open>
  One I2C transaction of \<open>_write\<close>: the device address, the mode byte and the payload
  byte, in the order \<open>Wire\<close> sends them.
\<close>

type_synonym transaction = "byte \<times> byte \<times> byte"

text \<open>
  The object: the private members \<open>_address\<close> and \<open>_buffer[OLED_WIDTH][OLED_HEIGHT/8]\<close>,
  and the bus as the list of transactions sent so far, oldest first. The array is a
  function of its two indices (column, then page); every store into it checks the bounds
  (see \<open>buffer_store\<close>).
\<close>

record oled =
  address :: byte
  buffer :: "nat \<Rightarrow> nat \<Rightarrow> byte"
  wire :: "transaction list"

text \<open>
  The global instance \<open>OLED128x64 OLED;\<close>: constructed with the default address, its
  buffer zero-initialised as an object of static storage, nothing sent yet.
\<close>

definition OLED :: oled where
  "OLED = \<lparr>address = OLED_ADDRESS, buffer = (\<lambda>_ _. 0), wire = []\<rparr>"

text \<open>Undefined behaviour of the C++ source, as a value.\<close>

datatype ub = IndexOutOfBounds | NegativeShift | ReadPastEnd

section \<open>Private functions\<close>

definition priv_write :: "byte \<Rightarrow> byte \<Rightarrow> oled \<Rightarrow> oled" where
  "priv_write data mode s = s\<lparr>wire := wire s @ [(address s, mode, data)]\<rparr>"

text \<open>The assignment \<open>_buffer[c][p] = v\<close>; an index outside the array is undefined.\<close>

definition buffer_store :: "int \<Rightarrow> int \<Rightarrow> byte \<Rightarrow> oled \<Rightarrow> ub + oled" where
  "buffer_store c p v s =
     (if 0 \<le> c \<and> c < OLED_WIDTH \<and> 0 \<le> p \<and> p < OLED_HEIGHT sdiv 8
      then Inr (s\<lparr>buffer := (buffer s)(nat c := (buffer s (nat c))(nat p := v))\<rparr>)
      else Inl IndexOutOfBounds)"

definition priv_clearBuffer :: "oled \<Rightarrow> oled" where
  "priv_clearBuffer s =
     fold (\<lambda>i. fold (\<lambda>j s. s\<lparr>buffer := (buffer s)(i := (buffer s i)(j := 0))\<rparr>)
                     [0 ..< nat (OLED_HEIGHT sdiv 8)])
          [0 ..< nat OLED_WIDTH] s"

section \<open>Getters and setters\<close>

definition getAddress :: "oled \<Rightarrow> byte" where
  "getAddress s = address s"

definition setAddress :: "byte \<Rightarrow> oled \<Rightarrow> oled" where
  "setAddress a s = s\<lparr>address := a\<rparr>"

definition setInvertedDisplay :: "bool \<Rightarrow> oled \<Rightarrow> oled" where
  "setInvertedDisplay val s =
     (if val then priv_write OLED_INVERTDISPLAY OLED_CMD_MODE s
      else priv_write OLED_NORMALDISPLAY OLED_CMD_MODE s)"

text \<open>
  \<open>setPixel\<close>: \<open>row/8\<close> and \<open>row%8\<close> truncate towards zero (\<open>sdiv\<close>, \<open>smod\<close>); a shift by
  a negative count and an index outside \<open>_buffer\<close> are undefined. The \<open>bool\<close> is promoted
  to 0 or 1 before the shift, and \<open>|=\<close> stores the low eight bits.
\<close>

definition setPixel :: "int \<Rightarrow> int \<Rightarrow> bool \<Rightarrow> oled \<Rightarrow> ub + oled" where
  "setPixel row col val s =
     (if row smod 8 < 0 then Inl NegativeShift
      else if \<not> (0 \<le> col \<and> col < OLED_WIDTH \<and> 0 \<le> row sdiv 8 \<and> row sdiv 8 < OLED_HEIGHT sdiv 8)
      then Inl IndexOutOfBounds
      else
        case buffer_store col (row sdiv 8)
               (buffer s (nat col) (nat (row sdiv 8))
                 OR of_int (push_bit (nat (row smod 8)) (of_bool val))) s of
          Inl e \<Rightarrow> Inl e
        | Inr s1 \<Rightarrow>
            let s2 = priv_write (of_int (0xB0 + row sdiv 8)) OLED_CMD_MODE s1;
                s3 = priv_write (of_int (OLED_LOWCOLUMN + (col AND 0x0F))) OLED_CMD_MODE s2;
                s4 = priv_write (of_int (OLED_HIGHCOLUMN + (drop_bit 4 col AND 0x0F))) OLED_CMD_MODE s3
            in Inr (priv_write (buffer s4 (nat col) (nat (row sdiv 8))) OLED_DATA_MODE s4))"

definition setCharCursor :: "int \<Rightarrow> int \<Rightarrow> oled \<Rightarrow> oled" where
  "setCharCursor X Y s =
     (let s1 = priv_write (of_int (0xB0 + X)) OLED_CMD_MODE s;
          s2 = priv_write (of_int (OLED_LOWCOLUMN + (8 * Y AND 0x0F))) OLED_CMD_MODE s1
      in priv_write (of_int (OLED_HIGHCOLUMN + (drop_bit 4 (8 * Y) AND 0x0F))) OLED_CMD_MODE s2)"

definition setCursor :: "int \<Rightarrow> int \<Rightarrow> oled \<Rightarrow> oled" where
  "setCursor X col s =
     (let s1 = priv_write (of_int (0xB0 + X)) OLED_CMD_MODE s;
          s2 = priv_write (of_int (OLED_LOWCOLUMN + (col AND 0x0F))) OLED_CMD_MODE s1
      in priv_write (of_int (OLED_HIGHCOLUMN + (drop_bit 4 col AND 0x0F))) OLED_CMD_MODE s2)"

section \<open>Clearing\<close>

definition priv_clearScreen :: "oled \<Rightarrow> oled" where
  "priv_clearScreen s =
     setCharCursor 0 0
       (fold (\<lambda>j s. fold (\<lambda>i. priv_write 0 OLED_DATA_MODE) [0 ..< nat OLED_WIDTH]
                         (setCharCursor (int j) 0 s))
             [0 ..< nat (OLED_HEIGHT sdiv 8)] s)"

definition priv_clearCharBuffer :: "int \<Rightarrow> int \<Rightarrow> oled \<Rightarrow> ub + oled" where
  "priv_clearCharBuffer X Y s =
     fold (\<lambda>i r. case r of Inl e \<Rightarrow> Inl e | Inr s' \<Rightarrow> buffer_store (Y * 8 + int i) X 0 s')
          [0 ..< 8] (Inr s)"

definition priv_clearCharScreen :: "int \<Rightarrow> int \<Rightarrow> oled \<Rightarrow> oled" where
  "priv_clearCharScreen X Y s =
     fold (\<lambda>i. priv_write 0x00 OLED_DATA_MODE) [0 ..< 8] (setCharCursor X Y s)"

definition clear :: "oled \<Rightarrow> oled" where
  "clear s = setCharCursor 0 0 (priv_clearBuffer (priv_clearScreen s))"

definition clearChar :: "int \<Rightarrow> int \<Rightarrow> oled \<Rightarrow> ub + oled" where
  "clearChar X Y s =
     (case priv_clearCharBuffer X Y s of
        Inl e \<Rightarrow> Inl e
      | Inr s1 \<Rightarrow> Inr (setCharCursor 0 0 (priv_clearCharScreen X Y s1)))"

definition clearCharRow :: "int \<Rightarrow> oled \<Rightarrow> ub + oled" where
  "clearCharRow X s =
     (case fold (\<lambda>j r. case r of
                        Inl e \<Rightarrow> Inl e
                      | Inr s' \<Rightarrow>
                          (case priv_clearCharBuffer X (int j) s' of
                             Inl e \<Rightarrow> Inl e
                           | Inr s1 \<Rightarrow> Inr (priv_clearCharScreen X (int j) s1)))
                [0 ..< nat (OLED_WIDTH sdiv 8)] (Inr s) of
        Inl e \<Rightarrow> Inl e
      | Inr s2 \<Rightarrow> Inr (setCharCursor 0 0 s2))"

section \<open>Power and initialisation\<close>

definition powerOn :: "oled \<Rightarrow> oled" where
  "powerOn s = priv_write OLED_ON OLED_CMD_MODE s"

definition powerOff :: "oled \<Rightarrow> oled" where
  "powerOff s = priv_write OLED_OFF OLED_CMD_MODE s"

text \<open>\<open>init\<close>: the command bytes of the power-up sequence in order, then \<open>clear\<close>, then \<open>powerOn\<close>.\<close>

definition init :: "oled \<Rightarrow> oled" where
  "init s =
     powerOn (clear (fold (\<lambda>b. priv_write b OLED_CMD_MODE)
       [OLED_OFF, OLED_NORMALDISPLAY,
        OLED_SETDISPLAYCLOCKDIV, 0x80,
        OLED_SETMULTIPLEX, 0x3F,
        OLED_SETDISPLAYOFFSET, 0x00,
        OLED_STARTLINE OR 0x00,
        OLED_CHARGEPUMP, 0x14,
        OLED_SETMEMORYMODE, 0x00,
        OLED_SEGREMAP,
        OLED_COMSCANDEC,
        OLED_SETCOMPINS, 0x12,
        OLED_SETCONTRAST, 0xCF,
        OLED_SETPRECHARGE, 0xF1,
        OLED_SETVCOMDETECT, 0x40,
        OLED_DISPLAYALLONRESUME,
        OLED_SEGREMAP, 0xa1,
        OLED_SCROLLOFF] s))"

section \<open>Drawing\<close>

definition drawProgressBar :: "int \<Rightarrow> int \<Rightarrow> oled \<Rightarrow> ub + oled" where
  "drawProgressBar X percent s =
     (case (if percent = 0 then clearCharRow X s else Inr s) of
        Inl e \<Rightarrow> Inl e
      | Inr s0 \<Rightarrow>
          let s1 = priv_write 0x7E OLED_DATA_MODE (setCursor X 12 s0);
              s2 = priv_write 0x7E OLED_DATA_MODE (setCursor X 113 s1);
              s3 = setCursor X 13 s2
          in Inr (fold (\<lambda>i. if percent \<ge> int i then priv_write 0x7E OLED_DATA_MODE
                             else priv_write 0x42 OLED_DATA_MODE)
                       [0 ..< 100] s3))"

text \<open>
  \<open>drawStr\<close> with a font: the string is the characters up to the terminating NUL (the end
  of the list, or a NUL inside it); \<open>font[(unsigned char)*string] + i\<close> is entry
  \<open>of_char c\<close>, byte \<open>i\<close> of a table of shape \<open>[256][8]\<close>. The overload without a font
  passes \<open>defaultFont\<close>. The counter \<open>char i\<close> of the inner loop stays below 8, as does
  \<open>char k\<close> in \<open>drawVLine\<close>, so its signedness plays no part there.
\<close>

type_synonym font = "byte list list"

fun drawStr_loop :: "font \<Rightarrow> string \<Rightarrow> oled \<Rightarrow> oled" where
  "drawStr_loop fnt [] s = s"
| "drawStr_loop fnt (c # cs) s =
     (if c = CHR 0x00 then s
      else drawStr_loop fnt cs
             (fold (\<lambda>i. priv_write (fnt ! of_char c ! i) OLED_DATA_MODE) [0 ..< 8] s))"

definition drawStr :: "string \<Rightarrow> int \<Rightarrow> int \<Rightarrow> font \<Rightarrow> oled \<Rightarrow> oled" where
  "drawStr string X Y fnt s = drawStr_loop fnt string (setCharCursor X Y s)"

text \<open>
  \<open>drawImage\<close>: \<open>data\<close> is the array the pointer addresses; reading \<open>data + i\<close> beyond
  its end is undefined.
\<close>

fun drawImage_loop :: "byte list \<Rightarrow> nat list \<Rightarrow> oled \<Rightarrow> ub + oled" where
  "drawImage_loop data [] s = Inr s"
| "drawImage_loop data (i # is) s =
     (if i < length data
      then drawImage_loop data is (priv_write (data ! i) OLED_DATA_MODE s)
      else Inl ReadPastEnd)"

definition drawImage :: "byte list \<Rightarrow> oled \<Rightarrow> ub + oled" where
  "drawImage data s =
     drawImage_loop data [0 ..< nat (OLED_WIDTH * OLED_HEIGHT sdiv 8)]
       (setCharCursor 0 0 (clear s))"

text \<open>
  \<open>drawHLine\<close> counts with a plain \<open>char i\<close> up to 128. Whether plain \<open>char\<close> is signed
  is fixed by the compiler's target (signed on AVR, unsigned on ESP8266), so it is a
  parameter: \<open>char_value csigned\<close> is the promotion of the counter to \<open>int\<close> in \<open>i<128\<close>, and
  \<open>i++\<close> stores the sum back into eight bits. The loop may not end, so it returns
  \<open>None\<close> when it does not.
\<close>

definition char_value :: "bool \<Rightarrow> byte \<Rightarrow> int" where
  "char_value csigned c = (if csigned then sint c else uint c)"

partial_function (option) drawHLine_loop :: "bool \<Rightarrow> byte \<Rightarrow> byte \<Rightarrow> oled \<Rightarrow> oled option" where
  "drawHLine_loop csigned i v s =
     (if char_value csigned i < 128
      then drawHLine_loop csigned (i + 1) v (priv_write v OLED_DATA_MODE s)
      else Some s)"

definition drawHLine :: "bool \<Rightarrow> int \<Rightarrow> oled \<Rightarrow> (ub + oled) option" where
  "drawHLine csigned row s =
     (if row smod 8 < 0 then Some (Inl NegativeShift)
      else
        case drawHLine_loop csigned 0 (0 OR of_int (push_bit (nat (row smod 8)) 1))
               (setCharCursor (row sdiv 8) 0 s) of
          None \<Rightarrow> None
        | Some s1 \<Rightarrow> Some (Inr (setCharCursor 0 0 s1)))"

definition drawVLine :: "int \<Rightarrow> oled \<Rightarrow> oled" where
  "drawVLine col s =
     setCharCursor 0 0
       (fold (\<lambda>k s. priv_write 0xFF OLED_DATA_MODE (setCursor (int k) col s)) [0 ..< 8] s)"

section \<open>The controller's display RAM\<close>

text \<open>
  The controller is hardware, not code of the driver. Its graphic RAM is modelled as far
  as the driver addresses it: eight pages of 128 columns, and a write cursor (page and
  column). A command byte \<open>0xB0..0xB7\<close> selects the page, \<open>0x00..0x0F\<close> sets the low
  nibble of the column and \<open>0x10..0x1F\<close> its high nibble; every other command leaves RAM
  and cursor alone. A data byte is stored at the cursor, and the column then advances by
  one; after the last column the cursor moves to the first column of the next page (the
  horizontal addressing mode that \<open>init\<close> selects). A device only sees the transactions
  sent to its own address.
\<close>

record device =
  ram :: "nat \<Rightarrow> nat \<Rightarrow> byte"
  page :: nat
  column :: nat

definition dev_data :: "byte \<Rightarrow> device \<Rightarrow> device" where
  "dev_data b d =
     d\<lparr>ram := (ram d)(page d := (ram d (page d))(column d := b)),
       page := (if column d + 1 < 128 then page d else (page d + 1) mod 8),
       column := (if column d + 1 < 128 then column d + 1 else 0)\<rparr>"

definition dev_cmd :: "byte \<Rightarrow> device \<Rightarrow> device" where
  "dev_cmd b d =
     (let n = unat b in
      if 0xB0 \<le> n \<and> n \<le> 0xB7 then d\<lparr>page := n - 0xB0\<rparr>
      else if n \<le> 0x0F then d\<lparr>column := 16 * (column d div 16) + n\<rparr>
      else if 0x10 \<le> n \<and> n \<le> 0x1F then d\<lparr>column := 16 * (n - 0x10) + column d mod 16\<rparr>
      else d)"

definition dev_step :: "byte \<Rightarrow> transaction \<Rightarrow> device \<Rightarrow> device" where
  "dev_step a t d =
     (case t of (addr, mode, b) \<Rightarrow>
        if addr \<noteq> a then d
        else if mode = OLED_DATA_MODE then dev_data b d
        else if mode = OLED_CMD_MODE then dev_cmd b d
        else d)"

definition dev_run :: "byte \<Rightarrow> transaction list \<Rightarrow> device \<Rightarrow> device" where
  "dev_run a ts d = fold (dev_step a) ts d"

text \<open>
  The device as the driver has left it: the device at the driver's address, started in
  \<open>d0\<close>, after every transaction on the wire.
\<close>

definition device_of :: "device \<Rightarrow> oled \<Rightarrow> device" where
  "device_of d0 s = dev_run (address s) (wire s) d0"

text \<open>The shadow buffer mirrors the display RAM: byte \<open>[column][page]\<close> for byte.\<close>

definition mirrors :: "device \<Rightarrow> oled \<Rightarrow> bool" where
  "mirrors d0 s \<longleftrightarrow>
     (\<forall>c \<in> {0 ..< 128}. \<forall>p \<in> {0 ..< 8}. buffer s c p = ram (device_of d0 s) p c)"

section \<open>Sequences of calls\<close>

datatype call =
    Init
  | Clear
  | ClearChar int int
  | ClearCharRow int
  | SetPixel int int bool
  | SetInvertedDisplay bool
  | PowerOn
  | PowerOff
  | DrawStr string int int font
  | DrawImage "byte list"
  | DrawHLine int
  | DrawVLine int
  | DrawProgressBar int int

text \<open>
  One call on the object; \<open>None\<close> when the call does not return, \<open>Inl\<close> when it runs
  into undefined behaviour.
\<close>

fun run_call :: "bool \<Rightarrow> call \<Rightarrow> oled \<Rightarrow> (ub + oled) option" where
  "run_call cs Init s = Some (Inr (init s))"
| "run_call cs Clear s = Some (Inr (clear s))"
| "run_call cs (ClearChar X Y) s = Some (clearChar X Y s)"
| "run_call cs (ClearCharRow X) s = Some (clearCharRow X s)"
| "run_call cs (SetPixel row col val) s = Some (setPixel row col val s)"
| "run_call cs (SetInvertedDisplay val) s = Some (Inr (setInvertedDisplay val s))"
| "run_call cs PowerOn s = Some (Inr (powerOn s))"
| "run_call cs PowerOff s = Some (Inr (powerOff s))"
| "run_call cs (DrawStr string X Y fnt) s = Some (Inr (drawStr string X Y fnt s))"
| "run_call cs (DrawImage data) s = Some (drawImage data s)"
| "run_call cs (DrawHLine row) s = drawHLine cs row s"
| "run_call cs (DrawVLine col) s = Some (Inr (drawVLine col s))"
| "run_call cs (DrawProgressBar X percent) s = Some (drawProgressBar X percent s)"

fun run_calls :: "bool \<Rightarrow> call list \<Rightarrow> oled \<Rightarrow> (ub + oled) option" where
  "run_calls cs [] s = Some (Inr s)"
| "run_calls cs (c # calls) s =
     (case run_call cs c s of
        None \<Rightarrow> None
      | Some (Inl e) \<Rightarrow> Some (Inl e)
      | Some (Inr s1) \<Rightarrow> run_calls cs calls s1)"

text \<open>The calls that keep the shadow buffer, and their documented argument ranges.\<close>

fun tracked :: "call \<Rightarrow> bool" where
  "tracked Init = True"
| "tracked Clear = True"
| "tracked (ClearChar X Y) = True"
| "tracked (ClearCharRow X) = True"
| "tracked (SetPixel row col val) = True"
| "tracked (SetInvertedDisplay val) = True"
| "tracked PowerOn = True"
| "tracked PowerOff = True"
| "tracked _ = False"

fun in_range :: "call \<Rightarrow> bool" where
  "in_range (ClearChar X Y) = (0 \<le> X \<and> X < 8 \<and> 0 \<le> Y \<and> Y < 16)"
| "in_range (ClearCharRow X) = (0 \<le> X \<and> X < 8)"
| "in_range (SetPixel row col val) = (0 \<le> row \<and> row < 64 \<and> 0 \<le> col \<and> col < 128)"
| "in_range _ = True"

section \<open>Notions for the statements\<close>

text \<open>
  The three commands that place the cursor at page \<open>X\<close>, pixel column \<open>col\<close>: what
  \<open>setCursor(X, col)\<close> sends, and \<open>setCharCursor(X, Y)\<close> with \<open>col = 8*Y\<close> (the masks
  \<open>& 0x0F\<close> and the shift \<open>>>4\<close> written as \<open>mod 16\<close> and \<open>div 16\<close>).
\<close>

definition cursor_cmds :: "byte \<Rightarrow> int \<Rightarrow> int \<Rightarrow> transaction list" where
  "cursor_cmds a X col =
     [(a, OLED_CMD_MODE, of_int (0xB0 + X)),
      (a, OLED_CMD_MODE, of_int (col mod 16)),
      (a, OLED_CMD_MODE, of_int (0x10 + col div 16 mod 16))]"

text \<open>A device whose RAM is all zero, for concrete runs.\<close>

definition blank_device :: device where
  "blank_device = \<lparr>ram = (\<lambda>_ _. 0), page = 0, column = 0\<rparr>"

text \<open>A font of the right shape whose every glyph is entry 0 of \<open>defaultFont\<close>.\<close>

definition plain_font :: font where
  "plain_font = replicate 256 [0x00, 0x00, 0x00, 0x1f, 0x1f, 0x00, 0x00, 0x00]"

text \<open>
  The cursor as one index into the RAM, page after page, and the cursors that lie on
  the panel.
\<close>

definition lin :: "device \<Rightarrow> nat" where
  "lin d = page d * 128 + column d"

definition cursor_ok :: "device \<Rightarrow> bool" where
  "cursor_ok d \<longleftrightarrow> page d < 8 \<and> column d < 128"

text \<open>An image whose byte \<open>i\<close> is \<open>i\<close> modulo 256.\<close>

definition ramp :: "byte list" where
  "ramp = map of_nat [0 ..< 1024]"

text \<open>The 100 bytes of the bar's body for a percentage: what the loop of
  \<open>drawProgressBar\<close> sends, index by index.\<close>

definition bar_body :: "int \<Rightarrow> byte list" where
  "bar_body percent = map (\<lambda>i. if int i \<le> percent then 0x7E else 0x42) [0 ..< 100]"

text \<open>
  What the screen half of \<open>clearCharRow(X)\<close> sends for its first \<open>n\<close> cells: for each
  cell the cursor commands of \<open>setCharCursor(X, j)\<close> and eight zero data bytes.
\<close>

definition row_clear_cmds :: "byte \<Rightarrow> int \<Rightarrow> nat \<Rightarrow> transaction list" where
  "row_clear_cmds a X n =
     concat (map (\<lambda>j. cursor_cmds a X (8 * int j) @ replicate 8 (a, OLED_DATA_MODE, 0)) [0 ..< n])"

text \<open>A device whose RAM is all ones, for concrete runs.\<close>

definition lit_device :: device where
  "lit_device = \<lparr>ram = (\<lambda>_ _. 0xFF), page = 0, column = 0\<rparr>"

section \<open>Integer arithmetic of the source\<close>

lemma sdiv8: "0 \<le> (r::int) \<Longrightarrow> r sdiv 8 = r div 8"
  by (cases "r = 0") (simp_all add: signed_divide_int_def)

lemma smod8: "0 \<le> (r::int) \<Longrightarrow> r smod 8 = r mod 8"
  by (cases "r = 0")
    (simp_all add: signed_modulo_int_def signed_divide_int_def minus_mult_div_eq_mod)

lemma and15: "(c::int) AND 0x0F = c mod 16"
proof -
  have "c AND mask 4 = c mod 2 ^ 4"
    by (simp only: take_bit_eq_mask [symmetric] take_bit_eq_mod)
  moreover have "(mask 4 :: int) = 0x0F"
    by (simp add: mask_eq_exp_minus_1)
  ultimately show ?thesis by simp
qed

lemma drop4: "drop_bit 4 (c::int) = c div 16"
  by (simp add: drop_bit_eq_div)

section \<open>What each step sends and keeps\<close>

lemma address_priv_write [simp]: "address (priv_write b m s) = address s"
  and buffer_priv_write [simp]: "buffer (priv_write b m s) = buffer s"
  and wire_priv_write [simp]: "wire (priv_write b m s) = wire s @ [(address s, m, b)]"
  by (simp_all add: priv_write_def)

lemma address_setCursor [simp]: "address (setCursor X col s) = address s"
  and buffer_setCursor [simp]: "buffer (setCursor X col s) = buffer s"
  and wire_setCursor: "wire (setCursor X col s) = wire s @ cursor_cmds (address s) X col"
  by (simp_all add: setCursor_def Let_def cursor_cmds_def and15 drop4
      OLED_LOWCOLUMN_def OLED_HIGHCOLUMN_def)

lemma address_setCharCursor [simp]: "address (setCharCursor X Y s) = address s"
  and buffer_setCharCursor [simp]: "buffer (setCharCursor X Y s) = buffer s"
  and wire_setCharCursor:
    "wire (setCharCursor X Y s) = wire s @ cursor_cmds (address s) X (8 * Y)"
  by (simp_all add: setCharCursor_def Let_def cursor_cmds_def and15 drop4
      OLED_LOWCOLUMN_def OLED_HIGHCOLUMN_def)

lemma address_fold_write [simp]:
  "address (fold (\<lambda>i. priv_write (f i) m) xs s) = address s"
  by (induction xs arbitrary: s) simp_all

lemma buffer_fold_write [simp]:
  "buffer (fold (\<lambda>i. priv_write (f i) m) xs s) = buffer s"
  by (induction xs arbitrary: s) simp_all

lemma wire_fold_write:
  "wire (fold (\<lambda>i. priv_write (f i) m) xs s) = wire s @ map (\<lambda>i. (address s, m, f i)) xs"
  by (induction xs arbitrary: s) simp_all

section \<open>Power on and off\<close>

text \<open>
  C2, as stated: \<open>powerOn\<close> transmits the power-down opcode \<open>0xAE\<close> and \<open>powerOff\<close> the
  power-up opcode \<open>0xAF\<close>. On the global instance this is false: the byte \<open>powerOn\<close>
  puts on the wire is not \<open>0xAE\<close>.
\<close>

theorem powerOn_sends_off_counterexample:
  "\<not> (wire (powerOn OLED) = wire OLED @ [(address OLED, OLED_CMD_MODE, 0xAE)]
      \<and> wire (powerOff OLED) = wire OLED @ [(address OLED, OLED_CMD_MODE, 0xAF)])"
  by (simp add: powerOn_def OLED_ON_def)

text \<open>
  C2, amended: \<open>powerOn\<close> transmits \<open>OLED_ON\<close>, which is \<open>0xAF\<close>, and \<open>powerOff\<close> transmits
  \<open>OLED_OFF\<close>, which is \<open>0xAE\<close>, each as one command byte; the names of the two
  operations agree with the opcodes they send, and neither touches the shadow buffer.
\<close>

theorem power_opcodes:
  "wire (powerOn s) = wire s @ [(address s, OLED_CMD_MODE, 0xAF)]
   \<and> wire (powerOff s) = wire s @ [(address s, OLED_CMD_MODE, 0xAE)]
   \<and> OLED_ON = 0xAF \<and> OLED_OFF = 0xAE
   \<and> buffer (powerOn s) = buffer s \<and> buffer (powerOff s) = buffer s"
  by (simp add: powerOn_def powerOff_def OLED_ON_def OLED_OFF_def)

section \<open>The device follows the cursor commands\<close>

lemma unat_byte_of_int: "0 \<le> k \<Longrightarrow> k < 256 \<Longrightarrow> unat (of_int k :: byte) = nat k"
  by (simp add: unsigned_of_int take_bit_int_eq_self)

lemma dev_run_append: "dev_run a (xs @ ys) d = dev_run a ys (dev_run a xs d)"
  by (simp add: dev_run_def)

lemma device_of_write_data [simp]:
  "device_of d0 (priv_write b OLED_DATA_MODE s) = dev_data b (device_of d0 s)"
  by (simp add: device_of_def dev_run_def dev_step_def)

lemma device_of_write_cmd [simp]:
  "device_of d0 (priv_write b OLED_CMD_MODE s) = dev_cmd b (device_of d0 s)"
  by (simp add: device_of_def dev_run_def dev_step_def OLED_CMD_MODE_def OLED_DATA_MODE_def)

lemma dev_run_cursor_cmds:
  assumes "0 \<le> X" "X < 8" "0 \<le> col" "col < 128"
  shows "dev_run a (cursor_cmds a X col) d = d\<lparr>page := nat X, column := nat col\<rparr>"
proof -
  have p: "unat (of_int (0xB0 + X) :: byte) = 0xB0 + nat X"
    by (subst unat_byte_of_int) (use assms in auto)
  have lo: "unat (of_int (col mod 16) :: byte) = nat col mod 16"
    by (subst unat_byte_of_int) (use assms in \<open>auto simp: nat_mod_distrib\<close>)
  have "col div 16 mod 16 = col div 16" using assms by simp
  then have hi: "unat (of_int (0x10 + col div 16 mod 16) :: byte) = 0x10 + nat col div 16"
    by (subst unat_byte_of_int) (use assms in \<open>auto simp: nat_add_distrib nat_div_distrib\<close>)
  have lt: "nat col mod 16 < 16" "nat col div 16 < 8" "nat X \<le> 7" using assms by auto
  have "dev_cmd (of_int (0x10 + col div 16 mod 16))
           (dev_cmd (of_int (col mod 16)) (dev_cmd (of_int (0xB0 + X)) d))
         = d\<lparr>page := nat X, column := nat col\<rparr>"
    unfolding dev_cmd_def Let_def p lo hi using lt by simp
  then show ?thesis
    by (simp only: cursor_cmds_def dev_run_def fold_simps dev_step_def prod.case
        OLED_CMD_MODE_def OLED_DATA_MODE_def comp_def id_def)
       simp
qed

lemma device_of_setCursor:
  "0 \<le> X \<Longrightarrow> X < 8 \<Longrightarrow> 0 \<le> col \<Longrightarrow> col < 128 \<Longrightarrow>
   device_of d0 (setCursor X col s) = (device_of d0 s)\<lparr>page := nat X, column := nat col\<rparr>"
  by (simp add: device_of_def wire_setCursor dev_run_append dev_run_cursor_cmds)

lemma device_of_setCharCursor:
  "0 \<le> X \<Longrightarrow> X < 8 \<Longrightarrow> 0 \<le> Y \<Longrightarrow> Y < 16 \<Longrightarrow>
   device_of d0 (setCharCursor X Y s) = (device_of d0 s)\<lparr>page := nat X, column := nat (8 * Y)\<rparr>"
  by (simp add: device_of_def wire_setCharCursor dev_run_append dev_run_cursor_cmds)

lemma dev_data_ram:
  "ram (dev_data b d) p c = (if p = page d \<and> c = column d then b else ram d p c)"
  by (simp add: dev_data_def)

section \<open>Setting a pixel\<close>

lemma setPixel_eq:
  assumes "0 \<le> row" "row < 64" "0 \<le> col" "col < 128"
  shows "setPixel row col val s =
    Inr (s\<lparr>buffer := (buffer s)(nat col := (buffer s (nat col))(nat (row div 8) :=
                 buffer s (nat col) (nat (row div 8)) OR push_bit (nat (row mod 8)) (of_bool val))),
            wire := wire s @ cursor_cmds (address s) (row div 8) col
                    @ [(address s, OLED_DATA_MODE,
                        buffer s (nat col) (nat (row div 8)) OR push_bit (nat (row mod 8)) (of_bool val))]\<rparr>)"
proof -
  have r: "row sdiv 8 = row div 8" "row smod 8 = row mod 8"
    using assms by (simp_all add: sdiv8 smod8)
  have b: "0 \<le> row div 8" "row div 8 < 8" "0 \<le> row mod 8" using assms by auto
  have pb: "(of_int (push_bit (nat (row mod 8)) (of_bool val)) :: byte) = push_bit (nat (row mod 8)) (of_bool val)"
    by (simp add: of_int_push_bit)
  show ?thesis
    unfolding setPixel_def r buffer_store_def Let_def pb
    using assms b
    by (simp add: OLED_WIDTH_def OLED_HEIGHT_def priv_write_def cursor_cmds_def and15 drop4
        OLED_LOWCOLUMN_def OLED_HIGHCOLUMN_def del: of_int_add)
qed

lemma bit_or_push1:
  "k < 8 \<Longrightarrow> bit ((w::byte) OR push_bit k 1) j \<longleftrightarrow> bit w j \<or> j = k"
  by (auto simp add: bit_simps)

lemma device_of_cong:
  "address s' = address s \<Longrightarrow> wire s' = wire s @ ts \<Longrightarrow>
   device_of d0 s' = dev_run (address s) ts (device_of d0 s)"
  by (simp add: device_of_def dev_run_append)

lemma dev_run_data1: "dev_run a [(a, OLED_DATA_MODE, b)] d = dev_data b d"
  by (simp add: dev_run_def dev_step_def)

lemma setPixel_lands:
  assumes "0 \<le> row" "row < 64" "0 \<le> col" "col < 128"
    and "setPixel row col val s = Inr s'"
  shows "ram (device_of d0 s') p c =
     (if p = nat (row div 8) \<and> c = nat col then buffer s' (nat col) (nat (row div 8))
      else ram (device_of d0 s) p c)"
proof -
  have b: "0 \<le> row div 8" "row div 8 < 8" using assms by auto
  let ?v = "buffer s (nat col) (nat (row div 8)) OR push_bit (nat (row mod 8)) (of_bool val)"
  from assms setPixel_eq [of row col val s]
  have s': "address s' = address s"
    "wire s' = wire s @ (cursor_cmds (address s) (row div 8) col @ [(address s, OLED_DATA_MODE, ?v)])"
    "buffer s' (nat col) (nat (row div 8)) = ?v"
    by auto
  show ?thesis
    unfolding device_of_cong [OF s'(1,2)] dev_run_append dev_run_data1 s'(3)
    using assms b by (simp add: dev_run_cursor_cmds dev_data_ram)
qed

text \<open>
  C4: for every in-range \<open>(row, col)\<close> and every prior buffer, \<open>setPixel(row, col, true)\<close>
  returns; the shadow byte at \<open>[col][row/8]\<close> then has bit \<open>row%8\<close> set and every other
  bit as before (it is the old byte OR-ed with the one bit); the call sends the three
  cursor commands for page \<open>row/8\<close>, column \<open>col\<close> and then the updated byte as data,
  which the device stores at that page and column.
\<close>

theorem setPixel_true_sets_bit:
  assumes "0 \<le> row" "row < 64" "0 \<le> col" "col < 128"
  shows "\<exists>s'. setPixel row col True s = Inr s'
    \<and> bit (buffer s' (nat col) (nat (row div 8))) (nat (row mod 8))
    \<and> (\<forall>k. k \<noteq> nat (row mod 8) \<longrightarrow>
          bit (buffer s' (nat col) (nat (row div 8))) k
          = bit (buffer s (nat col) (nat (row div 8))) k)
    \<and> buffer s' (nat col) (nat (row div 8))
        = buffer s (nat col) (nat (row div 8)) OR push_bit (nat (row mod 8)) 1
    \<and> wire s' = wire s @ cursor_cmds (address s) (row div 8) col
                 @ [(address s, OLED_DATA_MODE, buffer s' (nat col) (nat (row div 8)))]
    \<and> ram (device_of d0 s') (nat (row div 8)) (nat col) = buffer s' (nat col) (nat (row div 8))"
proof -
  have k: "nat (row mod 8) < 8" using assms by simp
  obtain s' where s': "setPixel row col True s = Inr s'"
    using setPixel_eq [OF assms] by blast
  have new: "buffer s' (nat col) (nat (row div 8))
        = buffer s (nat col) (nat (row div 8)) OR push_bit (nat (row mod 8)) 1"
    and w: "wire s' = wire s @ cursor_cmds (address s) (row div 8) col
                 @ [(address s, OLED_DATA_MODE, buffer s' (nat col) (nat (row div 8)))]"
    using s' setPixel_eq [OF assms, of True s] by auto
  have land: "ram (device_of d0 s') (nat (row div 8)) (nat col) = buffer s' (nat col) (nat (row div 8))"
    using setPixel_lands [OF assms s'] by simp
  have "bit (buffer s' (nat col) (nat (row div 8))) j
        \<longleftrightarrow> bit (buffer s (nat col) (nat (row div 8))) j \<or> j = nat (row mod 8)" for j
    unfolding new using k by (rule bit_or_push1)
  then show ?thesis using s' new w land by auto
qed

text \<open>Pixel (9, 5) on the fresh object: byte \<open>[5][1]\<close> becomes \<open>0x02\<close>.\<close>

theorem setPixel_true_sets_bit_witness:
  "\<exists>s'. setPixel 9 5 True OLED = Inr s' \<and> buffer s' 5 1 = 2
     \<and> ram (device_of blank_device s') 1 5 = 2"
  using setPixel_true_sets_bit [of 9 5 OLED blank_device]
  by (auto simp add: OLED_def)

text \<open>
  C10: for every in-range \<open>(row, col)\<close> and every buffer, \<open>setPixel(row, col, false)\<close>
  leaves every byte of the shadow buffer unchanged (a lit pixel is not cleared), still
  sends the three cursor commands for page \<open>row/8\<close>, column \<open>col\<close>, and transmits the
  existing shadow byte at \<open>[col][row/8]\<close> as data.
\<close>

theorem setPixel_false_keeps_buffer:
  assumes "0 \<le> row" "row < 64" "0 \<le> col" "col < 128"
  shows "\<exists>s'. setPixel row col False s = Inr s'
    \<and> buffer s' = buffer s
    \<and> wire s' = wire s @ cursor_cmds (address s) (row div 8) col
                 @ [(address s, OLED_DATA_MODE, buffer s (nat col) (nat (row div 8)))]
    \<and> ram (device_of d0 s') (nat (row div 8)) (nat col) = buffer s (nat col) (nat (row div 8))"
proof -
  obtain s' where s': "setPixel row col False s = Inr s'"
    using setPixel_eq [OF assms] by blast
  have b: "buffer s' = buffer s"
    and w: "wire s' = wire s @ cursor_cmds (address s) (row div 8) col
                 @ [(address s, OLED_DATA_MODE, buffer s (nat col) (nat (row div 8)))]"
    using s' setPixel_eq [OF assms, of False s] by auto
  have "ram (device_of d0 s') (nat (row div 8)) (nat col) = buffer s (nat col) (nat (row div 8))"
    using setPixel_lands [OF assms s'] b by simp
  then show ?thesis using s' b w by simp
qed

text \<open>Pixel (9, 5) on a buffer of all ones: byte \<open>[5][1]\<close> stays \<open>0xFF\<close> and is sent.\<close>

theorem setPixel_false_keeps_buffer_witness:
  "\<exists>s'. setPixel 9 5 False (OLED\<lparr>buffer := (\<lambda>_ _. 0xFF)\<rparr>) = Inr s'
     \<and> buffer s' 5 1 = 0xFF
     \<and> wire s' = cursor_cmds 0x3C 1 5 @ [(0x3C, OLED_DATA_MODE, 0xFF)]"
  using setPixel_false_keeps_buffer [of 9 5 "OLED\<lparr>buffer := (\<lambda>_ _. 0xFF)\<rparr>" blank_device]
  by (auto simp add: OLED_def OLED_ADDRESS_def)

section \<open>Clearing one character cell\<close>

lemma buffer_store_eq:
  "0 \<le> c \<Longrightarrow> c < 128 \<Longrightarrow> 0 \<le> p \<Longrightarrow> p < 8 \<Longrightarrow>
   buffer_store c p v s = Inr (s\<lparr>buffer := (buffer s)(nat c := (buffer s (nat c))(nat p := v))\<rparr>)"
  by (simp add: buffer_store_def OLED_WIDTH_def OLED_HEIGHT_def)

lemma clearCharBuffer_fold:
  assumes "0 \<le> X" "X < 8" "0 \<le> Y" "Y < 16" "n \<le> 8"
  shows "fold (\<lambda>i r. case r of Inl e \<Rightarrow> Inl e | Inr s' \<Rightarrow> buffer_store (Y * 8 + int i) X 0 s')
           [0 ..< n] (Inr s)
         = Inr (s\<lparr>buffer := (\<lambda>c p. if p = nat X \<and> nat (8 * Y) \<le> c \<and> c < nat (8 * Y) + n
                                     then 0 else buffer s c p)\<rparr>)"
  using assms(5)
proof (induction n)
  case 0
  have "(\<lambda>c p. if p = nat X \<and> nat (8 * Y) \<le> c \<and> c < nat (8 * Y) + 0
                then 0 else buffer s c p) = buffer s"
    by (auto simp add: fun_eq_iff)
  then show ?case by simp
next
  case (Suc n)
  have i: "0 \<le> Y * 8 + int n" "Y * 8 + int n < 128" "nat (Y * 8 + int n) = nat (8 * Y) + n"
    using assms(3,4) Suc.prems by auto
  show ?case
    using Suc assms(1,2)
    by (auto simp add: buffer_store_eq i fun_eq_iff)
qed

lemma priv_clearCharBuffer_eq:
  assumes "0 \<le> X" "X < 8" "0 \<le> Y" "Y < 16"
  shows "priv_clearCharBuffer X Y s =
     Inr (s\<lparr>buffer := (\<lambda>c p. if p = nat X \<and> nat (8 * Y) \<le> c \<and> c < nat (8 * Y) + 8
                                then 0 else buffer s c p)\<rparr>)"
  unfolding priv_clearCharBuffer_def using clearCharBuffer_fold [OF assms, of 8 s] by simp

lemma address_priv_clearCharScreen [simp]: "address (priv_clearCharScreen X Y s) = address s"
  and buffer_priv_clearCharScreen [simp]: "buffer (priv_clearCharScreen X Y s) = buffer s"
  and wire_priv_clearCharScreen:
    "wire (priv_clearCharScreen X Y s) =
       wire s @ cursor_cmds (address s) X (8 * Y) @ replicate 8 (address s, OLED_DATA_MODE, 0)"
  by (simp_all add: priv_clearCharScreen_def wire_fold_write wire_setCharCursor map_replicate_const)

lemma clearChar_eq:
  assumes "0 \<le> X" "X < 8" "0 \<le> Y" "Y < 16"
  shows "\<exists>s'. clearChar X Y s = Inr s' \<and> address s' = address s
     \<and> buffer s' = (\<lambda>c p. if p = nat X \<and> nat (8 * Y) \<le> c \<and> c < nat (8 * Y) + 8
                                then 0 else buffer s c p)
     \<and> wire s' = wire s @ cursor_cmds (address s) X (8 * Y)
                  @ replicate 8 (address s, OLED_DATA_MODE, 0) @ cursor_cmds (address s) 0 0"
  by (simp add: clearChar_def priv_clearCharBuffer_eq [OF assms] wire_setCharCursor
      wire_priv_clearCharScreen)

text \<open>
  C7: for every in-range cell \<open>(r, c)\<close> and every buffer, \<open>clearChar(r, c)\<close> returns,
  the eight shadow bytes \<open>[c*8+i][r]\<close> of the cell are zero afterwards, every other byte
  of the shadow buffer is as before, and the call ends with the three commands that
  put the cursor back to cell (0, 0), where the device's cursor then stands.
\<close>

theorem clearChar_frame:
  assumes "0 \<le> r" "r < 8" "0 \<le> c" "c < 16"
  shows "\<exists>s'. clearChar r c s = Inr s'
    \<and> (\<forall>i<8. buffer s' (nat (c * 8) + i) (nat r) = 0)
    \<and> (\<forall>col pg. (pg \<noteq> nat r \<or> col < nat (c * 8) \<or> nat (c * 8) + 8 \<le> col)
           \<longrightarrow> buffer s' col pg = buffer s col pg)
    \<and> wire s' = wire s @ cursor_cmds (address s) r (8 * c)
                 @ replicate 8 (address s, OLED_DATA_MODE, 0) @ cursor_cmds (address s) 0 0
    \<and> page (device_of d0 s') = 0 \<and> column (device_of d0 s') = 0"
proof -
  obtain s' where s': "clearChar r c s = Inr s'" "address s' = address s"
    and b: "buffer s' = (\<lambda>col pg. if pg = nat r \<and> nat (8 * c) \<le> col \<and> col < nat (8 * c) + 8
                                then 0 else buffer s col pg)"
    and w: "wire s' = wire s @ cursor_cmds (address s) r (8 * c)
                  @ replicate 8 (address s, OLED_DATA_MODE, 0) @ cursor_cmds (address s) 0 0"
    using clearChar_eq [OF assms, of s] by blast
  have "wire s' = wire s @ (cursor_cmds (address s) r (8 * c)
                  @ replicate 8 (address s, OLED_DATA_MODE, 0)) @ cursor_cmds (address s) 0 0"
    using w by simp
  then have "device_of d0 s' = dev_run (address s) (cursor_cmds (address s) 0 0)
      (dev_run (address s) (cursor_cmds (address s) r (8 * c)
                  @ replicate 8 (address s, OLED_DATA_MODE, 0)) (device_of d0 s))"
    using s'(2) by (simp only: device_of_def dev_run_append append_assoc)
  then have d: "page (device_of d0 s') = 0" "column (device_of d0 s') = 0"
    by (simp_all add: dev_run_cursor_cmds)
  have c8: "nat (8 * c) = nat (c * 8)" by (simp add: mult.commute)
  show ?thesis
    using s'(1) w d by (auto simp add: b c8)
qed

text \<open>Cell (1, 2) of a buffer of all ones: columns 16 to 23 of page 1, nothing else.\<close>

theorem clearChar_frame_witness:
  "\<exists>s'. clearChar 1 2 (OLED\<lparr>buffer := (\<lambda>_ _. 0xFF)\<rparr>) = Inr s'
     \<and> buffer s' 16 1 = 0 \<and> buffer s' 23 1 = 0
     \<and> buffer s' 15 1 = 0xFF \<and> buffer s' 24 1 = 0xFF \<and> buffer s' 16 0 = 0xFF"
proof -
  obtain s' where s': "clearChar 1 2 (OLED\<lparr>buffer := (\<lambda>_ _. 0xFF)\<rparr>) = Inr s'"
    and z: "\<forall>i<8. buffer s' (nat (2 * 8) + i) (nat 1) = 0"
    and f: "\<forall>col pg. (pg \<noteq> nat 1 \<or> col < nat (2 * 8) \<or> nat (2 * 8) + 8 \<le> col)
           \<longrightarrow> buffer s' col pg = buffer (OLED\<lparr>buffer := (\<lambda>_ _. 0xFF)\<rparr>) col pg"
    using clearChar_frame [of 1 2 "OLED\<lparr>buffer := (\<lambda>_ _. 0xFF)\<rparr>" blank_device] by auto
  from z [rule_format, of 0] z [rule_format, of 7]
  have "buffer s' 16 1 = 0" "buffer s' 23 1 = 0"
    by simp_all
  moreover from f have "buffer s' 15 1 = 0xFF" "buffer s' 24 1 = 0xFF" "buffer s' 16 0 = 0xFF"
    by simp_all
  ultimately show ?thesis using s' by simp
qed

section \<open>The horizontal line and its counter\<close>

lemma sint_byte_lt: "sint (i::byte) < 128"
  using sint_lt [of i] by simp

lemma drawHLine_loop_returns_unsigned:
  assumes "drawHLine_loop cs i v s = Some y"
  shows "\<not> cs"
proof (rule drawHLine_loop.raw_induct [where P = "\<lambda>cs i v s y. \<not> cs", OF _ assms])
  fix f :: "bool \<Rightarrow> byte \<Rightarrow> byte \<Rightarrow> oled \<Rightarrow> oled option" and c j w t z
  assume IH: "\<And>i v s b y. f i v s b = Some y \<Longrightarrow> \<not> i"
    and eq: "(if char_value c j < 128 then f c (j + 1) w (priv_write w OLED_DATA_MODE t)
             else Some t) = Some z"
  show "\<not> c"
  proof
    assume c
    then have "f c (j + 1) w (priv_write w OLED_DATA_MODE t) = Some z"
      using eq by (simp add: char_value_def sint_byte_lt)
    from IH [OF this] \<open>c\<close> show False by simp
  qed
qed

lemma drawHLine_loop_signed: "drawHLine_loop True i v s = None"
  using drawHLine_loop_returns_unsigned [of True i v s] by (cases "drawHLine_loop True i v s") auto

lemma drawHLine_loop_keeps:
  assumes "drawHLine_loop cs i v s = Some y"
  shows "buffer y = buffer s \<and> address y = address s"
proof (rule drawHLine_loop.raw_induct
        [where P = "\<lambda>cs i v s y. buffer y = buffer s \<and> address y = address s", OF _ assms])
  fix f :: "bool \<Rightarrow> byte \<Rightarrow> byte \<Rightarrow> oled \<Rightarrow> oled option" and c j w t z
  assume IH: "\<And>i v s b y. f i v s b = Some y \<Longrightarrow> buffer y = buffer b \<and> address y = address b"
    and eq: "(if char_value c j < 128 then f c (j + 1) w (priv_write w OLED_DATA_MODE t)
             else Some t) = Some z"
  show "buffer z = buffer t \<and> address z = address t"
  proof (cases "char_value c j < 128")
    case True
    then have "f c (j + 1) w (priv_write w OLED_DATA_MODE t) = Some z"
      using eq by simp
    from IH [OF this] show ?thesis by simp
  next
    case False
    then show ?thesis using eq by simp
  qed
qed

lemma address_funpow_write [simp]: "address ((priv_write v m ^^ n) s) = address s"
  and buffer_funpow_write [simp]: "buffer ((priv_write v m ^^ n) s) = buffer s"
  by (induction n) simp_all

lemma wire_funpow_write:
  "wire ((priv_write v m ^^ n) s) = wire s @ replicate n (address s, m, v)"
  by (induction n) (simp_all add: replicate_append_same)

lemma byte_count_up: "unat (i::byte) < 128 \<Longrightarrow> unat (i + 1) = unat i + 1"
  by (simp add: unat_word_ariths)

lemma uint_lt_128: "uint (i::byte) < 128 \<longleftrightarrow> unat i < 128"
  unfolding uint_nat by linarith

lemma drawHLine_loop_step:
  "unat i < 128 \<Longrightarrow> drawHLine_loop False i v s
     = drawHLine_loop False (i + 1) v (priv_write v OLED_DATA_MODE s)"
  by (subst drawHLine_loop.simps) (simp add: char_value_def uint_lt_128)

lemma drawHLine_loop_exit:
  "unat i = 128 \<Longrightarrow> drawHLine_loop False i v s = Some s"
  by (subst drawHLine_loop.simps) (simp add: char_value_def uint_lt_128)

lemma drawHLine_loop_unsigned:
  "unat i + n = 128 \<Longrightarrow>
   drawHLine_loop False i v s = Some ((priv_write v OLED_DATA_MODE ^^ n) s)"
proof (induction n arbitrary: i s)
  case 0
  then show ?case by (simp add: drawHLine_loop_exit)
next
  case (Suc n)
  then have lt: "unat i < 128" by simp
  have "unat (i + 1) + n = 128"
    using Suc.prems byte_count_up [OF lt] by simp
  then have "drawHLine_loop False (i + 1) v (priv_write v OLED_DATA_MODE s)
      = Some ((priv_write v OLED_DATA_MODE ^^ n) (priv_write v OLED_DATA_MODE s))"
    by (rule Suc.IH)
  then show ?case
    by (simp only: drawHLine_loop_step [OF lt] funpow_Suc_right comp_def)
qed

lemma drawHLine_unsigned_eq:
  assumes "0 \<le> row"
  shows "drawHLine False row s =
     Some (Inr (setCharCursor 0 0
       ((priv_write (push_bit (nat (row mod 8)) 1) OLED_DATA_MODE ^^ 128)
          (setCharCursor (row div 8) 0 s))))"
proof -
  have v: "(0 OR of_int (push_bit (nat (row mod 8)) 1) :: byte) = push_bit (nat (row mod 8)) 1"
    by (simp add: of_int_push_bit)
  have l: "drawHLine_loop False 0 v t = Some ((priv_write v OLED_DATA_MODE ^^ 128) t)" for v t
    by (rule drawHLine_loop_unsigned) simp
  have "\<not> row mod 8 < 0" by simp
  then show ?thesis
    unfolding drawHLine_def sdiv8 [OF assms] smod8 [OF assms] v l
    by (simp only: if_False option.case)
qed

lemma drawHLine_signed_eq:
  "0 \<le> row \<Longrightarrow> drawHLine True row s = None"
  by (simp add: drawHLine_def smod8 drawHLine_loop_signed)

text \<open>
  Where plain \<open>char\<close> is unsigned, \<open>drawHLine(9)\<close> returns: it sends the cursor
  commands for page 1, column 0, then 128 data bytes \<open>0x02\<close>, then the cursor commands
  for cell (0, 0).
\<close>

lemma drawHLine_9_unsigned_char:
  "\<exists>s'. drawHLine False 9 s = Some (Inr s') \<and> buffer s' = buffer s
     \<and> wire s' = wire s
         @ [(address s, OLED_CMD_MODE, 0xB1), (address s, OLED_CMD_MODE, 0x00),
            (address s, OLED_CMD_MODE, 0x10)]
         @ replicate 128 (address s, OLED_DATA_MODE, 0x02)
         @ [(address s, OLED_CMD_MODE, 0xB0), (address s, OLED_CMD_MODE, 0x00),
            (address s, OLED_CMD_MODE, 0x10)]"
proof -
  have "drawHLine False 9 s = Some (Inr (setCharCursor 0 0
       ((priv_write (push_bit (nat (9 mod 8)) 1) OLED_DATA_MODE ^^ 128)
          (setCharCursor (9 div 8) 0 s))))"
    by (rule drawHLine_unsigned_eq) simp
  then show ?thesis
    by (simp add: wire_setCharCursor wire_funpow_write cursor_cmds_def)
qed

text \<open>
  C5 claims that \<open>drawHLine(9)\<close> streams exactly 128 bytes \<open>0x02\<close> and then resets the
  cursor, a finite stream. Where plain \<open>char\<close> is signed, the counter \<open>char i\<close> never
  reaches 128 (it goes from 127 to -128), \<open>i<128\<close> stays true, and the call never
  returns: it keeps sending \<open>0x02\<close> and never resets the cursor.
\<close>

theorem drawHLine_9_signed_char_never_returns:
  "drawHLine True 9 s = None"
  by (rule drawHLine_signed_eq) simp

section \<open>Lines and strings leave the buffer alone\<close>

lemma buffer_drawStr_loop [simp]: "buffer (drawStr_loop fnt string s) = buffer s"
  by (induction fnt string s rule: drawStr_loop.induct) simp_all

lemma buffer_drawStr: "buffer (drawStr string X Y fnt s) = buffer s"
  by (simp add: drawStr_def)

lemma buffer_fold_setCursor_write [simp]:
  "buffer (fold (\<lambda>k s. priv_write b m (setCursor (f k) col s)) xs s) = buffer s"
  by (induction xs arbitrary: s) simp_all

lemma buffer_drawVLine: "buffer (drawVLine col s) = buffer s"
  by (simp add: drawVLine_def)

lemma buffer_drawHLine:
  assumes "drawHLine cs row s = Some (Inr s')"
  shows "buffer s' = buffer s"
proof -
  from assms obtain s1 where
    l: "drawHLine_loop cs 0 (0 OR of_int (push_bit (nat (row smod 8)) 1))
               (setCharCursor (row sdiv 8) 0 s) = Some s1"
    and s': "s' = setCharCursor 0 0 s1"
    by (auto simp add: drawHLine_def split: if_splits option.splits)
  from drawHLine_loop_keeps [OF l] s' show ?thesis by simp
qed

text \<open>
  C8: for every string, cell position, font, pixel row and pixel column, \<open>drawStr\<close>,
  \<open>drawVLine\<close> and \<open>drawHLine\<close> leave the shadow buffer as it was: they only send.
  \<open>drawStr\<close> and \<open>drawVLine\<close> always return; \<open>drawHLine\<close> keeps the buffer whenever
  it returns, and it does return for every row from 0 on where plain \<open>char\<close> is unsigned.
\<close>

theorem draw_lines_and_strings_keep_buffer:
  "buffer (drawStr string X Y fnt s) = buffer s
   \<and> buffer (drawVLine col s) = buffer s
   \<and> (\<forall>s'. drawHLine cs row s = Some (Inr s') \<longrightarrow> buffer s' = buffer s)
   \<and> (\<not> cs \<and> 0 \<le> row \<longrightarrow> (\<exists>s'. drawHLine cs row s = Some (Inr s')))"
  using buffer_drawHLine [of cs row s] drawHLine_unsigned_eq [of row s]
  by (auto simp add: buffer_drawStr buffer_drawVLine)

text \<open>A string, a vertical and a horizontal line over a buffer of \<open>0x55\<close> bytes.\<close>

theorem draw_lines_and_strings_keep_buffer_witness:
  "buffer (drawStr ''Hi'' 1 2 plain_font (OLED\<lparr>buffer := (\<lambda>_ _. 0x55)\<rparr>)) = (\<lambda>_ _. 0x55)
   \<and> buffer (drawVLine 3 (OLED\<lparr>buffer := (\<lambda>_ _. 0x55)\<rparr>)) = (\<lambda>_ _. 0x55)
   \<and> (\<exists>s'. drawHLine False 9 (OLED\<lparr>buffer := (\<lambda>_ _. 0x55)\<rparr>) = Some (Inr s')
         \<and> buffer s' = (\<lambda>_ _. 0x55))"
  using draw_lines_and_strings_keep_buffer
    [of "''Hi''" 1 2 plain_font "OLED\<lparr>buffer := (\<lambda>_ _. 0x55)\<rparr>" 3 False 9]
  by auto

section \<open>Streaming data into the display RAM\<close>

lemma cursor_ok_dev_data: "cursor_ok d \<Longrightarrow> cursor_ok (dev_data b d)"
  by (simp add: cursor_ok_def dev_data_def)

lemma lin_dev_data:
  "cursor_ok d \<Longrightarrow> lin d + 1 < 1024 \<Longrightarrow> lin (dev_data b d) = lin d + 1"
  by (auto simp add: cursor_ok_def dev_data_def lin_def)

lemma lin_inj:
  assumes "c < 128" "c' < 128"
  shows "(p * 128 + c = p' * 128 + c') = (p = p' \<and> c = (c'::nat))"
proof
  assume e: "p * 128 + c = p' * 128 + c'"
  have "(p * 128 + c) div 128 = p" "(p' * 128 + c') div 128 = p'"
    using assms by simp_all
  with e have "p = p'" by metis
  with e show "p = p' \<and> c = c'" by simp
qed simp

lemma ram_dev_data_lin:
  "cursor_ok d \<Longrightarrow> p < 8 \<Longrightarrow> c < 128 \<Longrightarrow>
   ram (dev_data b d) p c = (if p * 128 + c = lin d then b else ram d p c)"
  by (simp add: cursor_ok_def dev_data_ram lin_def lin_inj)

lemma dev_stream:
  assumes "cursor_ok d" "lin d + length bs \<le> 1024" "p < 8" "c < 128"
  shows "ram (fold dev_data bs d) p c =
     (if lin d \<le> p * 128 + c \<and> p * 128 + c < lin d + length bs
      then bs ! (p * 128 + c - lin d) else ram d p c)"
  using assms(1,2)
proof (induction bs arbitrary: d)
  case Nil
  then show ?case by auto
next
  case (Cons b bs)
  show ?case
  proof (cases "bs = []")
    case True
    then show ?thesis
      using Cons.prems assms(3,4) by (auto simp add: ram_dev_data_lin)
  next
    case False
    then have l: "lin d + 1 < 1024" using Cons.prems by (cases bs) auto
    have ok: "cursor_ok (dev_data b d)" using Cons.prems by (simp add: cursor_ok_dev_data)
    have l1: "lin (dev_data b d) = lin d + 1" using Cons.prems l by (simp add: lin_dev_data)
    have "ram (fold dev_data bs (dev_data b d)) p c =
      (if lin d + 1 \<le> p * 128 + c \<and> p * 128 + c < lin d + 1 + length bs
       then bs ! (p * 128 + c - (lin d + 1)) else ram (dev_data b d) p c)"
      using Cons.IH [OF ok] Cons.prems l1 by simp
    then show ?thesis
      using Cons.prems assms(3,4)
      by (auto simp add: ram_dev_data_lin nth_Cons')
  qed
qed

lemma device_of_fold_write:
  "device_of d0 (fold (\<lambda>i. priv_write (f i) OLED_DATA_MODE) xs s)
   = fold dev_data (map f xs) (device_of d0 s)"
  by (induction xs arbitrary: s) simp_all

section \<open>Clearing the display\<close>

lemma device_of_buffer_update [simp]: "device_of d0 (s\<lparr>buffer := b\<rparr>) = device_of d0 s"
  by (simp add: device_of_def)

lemma clearBuffer_inner:
  "fold (\<lambda>j s. s\<lparr>buffer := (buffer s)(i := (buffer s i)(j := 0))\<rparr>) [0 ..< m] s
   = s\<lparr>buffer := (\<lambda>c p. if c = i \<and> p < m then 0 else buffer s c p)\<rparr>"
proof (induction m)
  case 0
  then show ?case by simp
next
  case (Suc m)
  then show ?case by (auto simp add: fun_eq_iff)
qed

lemma clearBuffer_outer:
  "fold (\<lambda>i. fold (\<lambda>j s. s\<lparr>buffer := (buffer s)(i := (buffer s i)(j := 0))\<rparr>) [0 ..< m])
        [0 ..< n] s
   = s\<lparr>buffer := (\<lambda>c p. if c < n \<and> p < m then 0 else buffer s c p)\<rparr>"
proof (induction n)
  case 0
  then show ?case by simp
next
  case (Suc n)
  let ?F = "\<lambda>i. fold (\<lambda>j s. s\<lparr>buffer := (buffer s)(i := (buffer s i)(j := 0))\<rparr>) [0 ..< m]"
  let ?t = "fold ?F [0 ..< n] s"
  have "fold ?F [0 ..< Suc n] s = ?F n ?t" by simp
  also have "\<dots> = ?t\<lparr>buffer := (\<lambda>c p. if c = n \<and> p < m then 0 else buffer ?t c p)\<rparr>"
    by (rule clearBuffer_inner)
  also have "\<dots> = s\<lparr>buffer := (\<lambda>c p. if c < Suc n \<and> p < m then 0 else buffer s c p)\<rparr>"
    unfolding Suc.IH by (auto simp add: fun_eq_iff)
  finally show ?case .
qed

lemma priv_clearBuffer_eq:
  "priv_clearBuffer s = s\<lparr>buffer := (\<lambda>c p. if c < 128 \<and> p < 8 then 0 else buffer s c p)\<rparr>"
  by (simp add: priv_clearBuffer_def clearBuffer_outer OLED_WIDTH_def OLED_HEIGHT_def)

lemma address_clearScreen_fold [simp]:
  "address (fold (\<lambda>j s. fold (\<lambda>i. priv_write 0 OLED_DATA_MODE) [0 ..< w]
                         (setCharCursor (int j) 0 s)) xs s) = address s"
  and buffer_clearScreen_fold [simp]:
  "buffer (fold (\<lambda>j s. fold (\<lambda>i. priv_write 0 OLED_DATA_MODE) [0 ..< w]
                         (setCharCursor (int j) 0 s)) xs s) = buffer s"
  by (induction xs arbitrary: s) simp_all

lemma address_priv_clearScreen [simp]: "address (priv_clearScreen s) = address s"
  and buffer_priv_clearScreen [simp]: "buffer (priv_clearScreen s) = buffer s"
  by (simp_all add: priv_clearScreen_def)

lemma cursor_ok_set [simp]: "cursor_ok (d\<lparr>page := p, column := c\<rparr>) \<longleftrightarrow> p < 8 \<and> c < 128"
  and lin_set [simp]: "lin (d\<lparr>page := p, column := c\<rparr>) = p * 128 + c"
  and ram_set [simp]: "ram (d\<lparr>page := p, column := c\<rparr>) = ram d"
  by (simp_all add: cursor_ok_def lin_def)

lemma page_window:
  assumes "c < 128" "a + n \<le> 128"
  shows "(X * 128 + a \<le> p * 128 + c \<and> p * 128 + c < X * 128 + a + n)
         \<longleftrightarrow> (p = X \<and> a \<le> c \<and> c < a + (n::nat))"
proof (cases "p = X")
  case True
  then show ?thesis by auto
next
  case False
  then consider "p + 1 \<le> X" | "X + 1 \<le> p" by linarith
  then show ?thesis
  proof cases
    case 1
    then have "(p + 1) * 128 \<le> X * 128" by simp
    then show ?thesis using assms False by auto
  next
    case 2
    then have "(X + 1) * 128 \<le> p * 128" by simp
    then show ?thesis using assms False by auto
  qed
qed

lemma clearScreen_pages:
  assumes "n \<le> 8" "p < n" "c < 128"
  shows "ram (device_of d0
            (fold (\<lambda>j s. fold (\<lambda>i. priv_write 0 OLED_DATA_MODE) [0 ..< 128]
                               (setCharCursor (int j) 0 s)) [0 ..< n] s)) p c = 0"
  using assms(1,2)
proof (induction n)
  case 0
  then show ?case by simp
next
  case (Suc n)
  let ?s1 = "fold (\<lambda>j s. fold (\<lambda>i. priv_write 0 OLED_DATA_MODE) [0 ..< 128]
                               (setCharCursor (int j) 0 s)) [0 ..< n] s"
  have cur: "device_of d0 (setCharCursor (int n) 0 ?s1)
             = (device_of d0 ?s1)\<lparr>page := n, column := 0\<rparr>"
    using Suc.prems by (simp add: device_of_setCharCursor)
  have "ram (fold dev_data (map (\<lambda>i. 0) [0 ..< 128]) ((device_of d0 ?s1)\<lparr>page := n, column := 0\<rparr>)) p c
      = (if p = n then 0 else ram (device_of d0 ?s1) p c)"
    using Suc.prems assms(3) page_window [of c 0 128 n p]
    by (subst dev_stream) auto
  then show ?case
    using Suc by (auto simp add: device_of_fold_write cur)
qed

lemma clear_device:
  "p < 8 \<Longrightarrow> c < 128 \<Longrightarrow> ram (device_of d0 (clear s)) p c = 0"
  using clearScreen_pages [of 8 p c d0 s]
  by (simp add: clear_def priv_clearBuffer_eq priv_clearScreen_def device_of_setCharCursor
      OLED_WIDTH_def OLED_HEIGHT_def)

lemma clear_buffer:
  "buffer (clear s) = (\<lambda>c p. if c < 128 \<and> p < 8 then 0 else buffer s c p)"
  by (simp add: clear_def priv_clearBuffer_eq cong: if_cong)

lemma address_clear [simp]: "address (clear s) = address s"
  by (simp add: clear_def priv_clearBuffer_eq)

section \<open>The shadow buffer and the display RAM\<close>

lemma mirrors_clear: "mirrors d0 (clear s)"
  by (simp add: mirrors_def clear_device clear_buffer)

lemma mirrors_setPixel:
  assumes "0 \<le> row" "row < 64" "0 \<le> col" "col < 128" "mirrors d0 s"
  shows "\<exists>s'. setPixel row col val s = Inr s' \<and> mirrors d0 s'"
proof -
  obtain s' where s': "setPixel row col val s = Inr s'"
    using setPixel_eq [OF assms(1-4)] by blast
  have b: "buffer s' = (buffer s)(nat col := (buffer s (nat col))(nat (row div 8) :=
                 buffer s (nat col) (nat (row div 8)) OR push_bit (nat (row mod 8)) (of_bool val)))"
    using s' setPixel_eq [OF assms(1-4), of val s] by auto
  have "buffer s' c p = ram (device_of d0 s') p c" if "c < 128" "p < 8" for c p
    using assms(5) that unfolding setPixel_lands [OF assms(1-4) s'] mirrors_def
    by (auto simp add: b)
  then show ?thesis using s' by (auto simp add: mirrors_def)
qed

lemma clearCell_step:
  assumes "0 \<le> X" "X < 8" "0 \<le> Y" "Y < 16"
  shows "\<exists>s'. (case priv_clearCharBuffer X Y s of
                 Inl e \<Rightarrow> Inl e
               | Inr s1 \<Rightarrow> Inr (priv_clearCharScreen X Y s1)) = Inr s'
     \<and> address s' = address s
     \<and> buffer s' = (\<lambda>c p. if p = nat X \<and> nat (8 * Y) \<le> c \<and> c < nat (8 * Y) + 8
                            then 0 else buffer s c p)
     \<and> (\<forall>p<8. \<forall>c<128. ram (device_of d0 s') p c =
            (if p = nat X \<and> nat (8 * Y) \<le> c \<and> c < nat (8 * Y) + 8
             then 0 else ram (device_of d0 s) p c))"
proof -
  let ?s1 = "s\<lparr>buffer := (\<lambda>c p. if p = nat X \<and> nat (8 * Y) \<le> c \<and> c < nat (8 * Y) + 8
                                then 0 else buffer s c p)\<rparr>"
  have r: "nat X < 8" "nat (8 * Y) + 8 \<le> 128" "nat (8 * Y) < 128" using assms by auto
  have "ram (device_of d0 (priv_clearCharScreen X Y ?s1)) p c =
            (if p = nat X \<and> nat (8 * Y) \<le> c \<and> c < nat (8 * Y) + 8
             then 0 else ram (device_of d0 s) p c)" if "p < 8" "c < 128" for p c
    unfolding priv_clearCharScreen_def device_of_fold_write
      device_of_setCharCursor [OF assms] device_of_buffer_update
    using that r page_window [of c "nat (8 * Y)" 8 "nat X" p]
    by (subst dev_stream) auto
  then show ?thesis
    by (simp add: priv_clearCharBuffer_eq [OF assms])
qed

lemma mirrors_clearCell_step:
  assumes "0 \<le> X" "X < 8" "0 \<le> Y" "Y < 16" "mirrors d0 s"
  shows "\<exists>s'. (case priv_clearCharBuffer X Y s of
                 Inl e \<Rightarrow> Inl e
               | Inr s1 \<Rightarrow> Inr (priv_clearCharScreen X Y s1)) = Inr s'
     \<and> address s' = address s \<and> mirrors d0 s'"
  using clearCell_step [OF assms(1-4), of s d0] assms(5)
  by (auto simp add: mirrors_def)

lemma mirrors_setCharCursor_home: "mirrors d0 s \<Longrightarrow> mirrors d0 (setCharCursor 0 0 s)"
  by (simp add: mirrors_def device_of_setCharCursor)

lemma mirrors_clearChar:
  assumes "0 \<le> X" "X < 8" "0 \<le> Y" "Y < 16" "mirrors d0 s"
  shows "\<exists>s'. clearChar X Y s = Inr s' \<and> mirrors d0 s'"
  using mirrors_clearCell_step [OF assms]
  by (auto simp add: clearChar_def mirrors_setCharCursor_home split: sum.splits)

lemma clearCharRow_fold:
  assumes "0 \<le> X" "X < 8" "n \<le> 16" "mirrors d0 s"
  shows "\<exists>s'. fold (\<lambda>j r. case r of
                        Inl e \<Rightarrow> Inl e
                      | Inr s' \<Rightarrow>
                          (case priv_clearCharBuffer X (int j) s' of
                             Inl e \<Rightarrow> Inl e
                           | Inr s1 \<Rightarrow> Inr (priv_clearCharScreen X (int j) s1)))
                [0 ..< n] (Inr s) = Inr s' \<and> address s' = address s \<and> mirrors d0 s'"
  using assms(3)
proof (induction n)
  case 0
  then show ?case using assms(4) by simp
next
  case (Suc n)
  then obtain s1 where s1: "fold (\<lambda>j r. case r of
                        Inl e \<Rightarrow> Inl e
                      | Inr s' \<Rightarrow>
                          (case priv_clearCharBuffer X (int j) s' of
                             Inl e \<Rightarrow> Inl e
                           | Inr s1 \<Rightarrow> Inr (priv_clearCharScreen X (int j) s1)))
                [0 ..< n] (Inr s) = Inr s1" "address s1 = address s" "mirrors d0 s1"
    by auto
  have "0 \<le> int n" "int n < 16" using Suc.prems by auto
  from mirrors_clearCell_step [OF assms(1,2) this s1(3)] s1(1,2)
  show ?case by auto
qed

lemma mirrors_clearCharRow:
  assumes "0 \<le> X" "X < 8" "mirrors d0 s"
  shows "\<exists>s'. clearCharRow X s = Inr s' \<and> address s' = address s \<and> mirrors d0 s'"
  using clearCharRow_fold [OF assms(1,2) _ assms(3), of 16]
  by (auto simp add: clearCharRow_def OLED_WIDTH_def mirrors_setCharCursor_home)

lemma dev_cmd_other:
  "dev_cmd 0xA6 d = d" "dev_cmd 0xA7 d = d" "dev_cmd 0xAE d = d" "dev_cmd 0xAF d = d"
  by (simp_all add: dev_cmd_def)

lemma mirrors_commands:
  "mirrors d0 s \<Longrightarrow> mirrors d0 (setInvertedDisplay val s)"
  "mirrors d0 s \<Longrightarrow> mirrors d0 (powerOn s)"
  "mirrors d0 s \<Longrightarrow> mirrors d0 (powerOff s)"
  by (simp_all add: mirrors_def setInvertedDisplay_def powerOn_def powerOff_def dev_cmd_other
      OLED_INVERTDISPLAY_def OLED_NORMALDISPLAY_def OLED_ON_def OLED_OFF_def)

lemma mirrors_init: "mirrors d0 (init s)"
  by (simp add: init_def mirrors_commands mirrors_clear)

lemma run_call_mirrors:
  assumes "tracked c" "in_range c" "mirrors d0 s"
  shows "\<exists>s'. run_call cs c s = Some (Inr s') \<and> mirrors d0 s'"
proof (cases c)
  case Clear
  then show ?thesis by (simp add: mirrors_clear)
next
  case (ClearChar X Y)
  then show ?thesis using assms mirrors_clearChar [of X Y d0 s] by auto
next
  case (ClearCharRow X)
  then show ?thesis using assms mirrors_clearCharRow [of X d0 s] by auto
next
  case (SetPixel row col val)
  then show ?thesis using assms mirrors_setPixel [of row col d0 s val] by auto
qed (use assms in \<open>simp_all add: mirrors_commands mirrors_init\<close>)

lemma run_calls_mirrors:
  assumes "\<forall>c \<in> set calls. tracked c \<and> in_range c" "mirrors d0 s"
  shows "\<exists>s'. run_calls cs calls s = Some (Inr s') \<and> mirrors d0 s'"
  using assms
proof (induction calls arbitrary: s)
  case Nil
  then show ?case by simp
next
  case (Cons c calls)
  then obtain s1 where "run_call cs c s = Some (Inr s1)" "mirrors d0 s1"
    using run_call_mirrors [of c d0 s cs] by auto
  then show ?case using Cons by simp
qed

lemma drawVLine_pages:
  assumes "0 \<le> col" "col < 128" "n \<le> 8" "p < n"
  shows "ram (device_of d0
           (fold (\<lambda>k s. priv_write 0xFF OLED_DATA_MODE (setCursor (int k) col s)) [0 ..< n] s))
           p (nat col) = 0xFF"
  using assms(3,4)
proof (induction n)
  case 0
  then show ?case by simp
next
  case (Suc n)
  have "0 \<le> int n" "int n < 8" using Suc.prems by auto
  from device_of_setCursor [OF this assms(1,2)] Suc
  show ?case by (auto simp add: dev_data_ram less_Suc_eq)
qed

lemma drawVLine_device:
  assumes "0 \<le> col" "col < 128" "p < 8"
  shows "ram (device_of d0 (drawVLine col s)) p (nat col) = 0xFF"
  using drawVLine_pages [where n = 8 and p = p and col = col and s = s] assms
  by (simp add: drawVLine_def device_of_setCharCursor)

text \<open>
  C1, as stated: after any sequence of drawing primitives from a cleared state the shadow
  buffer equals the display RAM. It fails for the one call \<open>drawVLine(0)\<close> on the
  cleared global instance: the cleared state mirrors the device, the call returns, the
  device holds \<open>0xFF\<close> at page 0, column 0, and the shadow byte \<open>[0][0]\<close> is still 0.
\<close>

theorem drawVLine_diverges_counterexample:
  "run_calls False [DrawVLine 0] (clear OLED) = Some (Inr (drawVLine 0 (clear OLED)))
   \<and> mirrors blank_device (clear OLED)
   \<and> buffer (drawVLine 0 (clear OLED)) 0 0 = 0
   \<and> ram (device_of blank_device (drawVLine 0 (clear OLED))) 0 0 = 0xFF
   \<and> \<not> mirrors blank_device (drawVLine 0 (clear OLED))"
proof -
  have b: "buffer (drawVLine 0 (clear OLED)) 0 0 = 0"
    by (simp add: buffer_drawVLine clear_buffer)
  have r: "ram (device_of blank_device (drawVLine 0 (clear OLED))) 0 0 = 0xFF"
    using drawVLine_device [of 0 0 blank_device "clear OLED"] by simp
  have "\<not> mirrors blank_device (drawVLine 0 (clear OLED))"
  proof
    assume "mirrors blank_device (drawVLine 0 (clear OLED))"
    then have "buffer (drawVLine 0 (clear OLED)) 0 0
        = ram (device_of blank_device (drawVLine 0 (clear OLED))) 0 0"
      by (simp add: mirrors_def)
    with b r show False by simp
  qed
  with b r show ?thesis by (simp add: mirrors_clear)
qed

section \<open>Blitting an image\<close>

lemma drawImage_loop_eq:
  "\<forall>i \<in> set is. i < length data \<Longrightarrow>
   drawImage_loop data is s = Inr (fold (\<lambda>i. priv_write (data ! i) OLED_DATA_MODE) is s)"
  by (induction "is" arbitrary: s) simp_all

lemma drawImage_eq:
  "1024 \<le> length data \<Longrightarrow>
   drawImage data s =
     Inr (fold (\<lambda>i. priv_write (data ! i) OLED_DATA_MODE) [0 ..< 1024]
            (setCharCursor 0 0 (clear s)))"
  by (simp add: drawImage_def OLED_WIDTH_def OLED_HEIGHT_def drawImage_loop_eq)

lemma map_nth_upt: "n \<le> length xs \<Longrightarrow> map (\<lambda>i. f (xs ! i)) [0 ..< n] = map f (take n xs)"
  by (rule nth_equalityI) simp_all

lemma drawImage_extra:
  assumes "1024 \<le> length data"
  shows "drawImage (data @ extra) s = drawImage data s"
proof -
  have "fold (\<lambda>i. priv_write ((data @ extra) ! i) OLED_DATA_MODE) [0 ..< 1024] t
      = fold (\<lambda>i. priv_write (data ! i) OLED_DATA_MODE) [0 ..< 1024] t" for t
    using assms by (intro fold_cong) (auto simp add: nth_append)
  then show ?thesis using assms by (simp add: drawImage_eq)
qed

text \<open>
  C9: for every input of exactly 1024 bytes \<open>drawImage\<close> returns; it first clears the
  display (the device RAM is all zero after the \<open>clear\<close>) and the shadow buffer, sends
  the cursor commands for cell (0, 0), and then the 1024 input bytes as data, verbatim
  and in order; the device stores byte \<open>p * 128 + c\<close> of the input at page \<open>p\<close>, column
  \<open>c\<close> (all columns of page 0, then of page 1, and so on); bytes after the 1024th
  change nothing.
\<close>

theorem drawImage_streams_input:
  assumes "length data = 1024"
  shows "\<exists>s'. drawImage data s = Inr s'
    \<and> (\<forall>p<8. \<forall>c<128. ram (device_of d0 (clear s)) p c = 0)
    \<and> (\<forall>c<128. \<forall>p<8. buffer s' c p = 0)
    \<and> wire s' = wire (clear s) @ cursor_cmds (address s) 0 0
                 @ map (\<lambda>b. (address s, OLED_DATA_MODE, b)) data
    \<and> (\<forall>p<8. \<forall>c<128. ram (device_of d0 s') p c = data ! (p * 128 + c))
    \<and> (\<forall>extra. drawImage (data @ extra) s = Inr s')"
proof -
  let ?s' = "fold (\<lambda>i. priv_write (data ! i) OLED_DATA_MODE) [0 ..< 1024]
            (setCharCursor 0 0 (clear s))"
  have e: "drawImage data s = Inr ?s'" using assms by (simp add: drawImage_eq)
  have w: "wire ?s' = wire (clear s) @ cursor_cmds (address s) 0 0
                 @ map (\<lambda>b. (address s, OLED_DATA_MODE, b)) data"
    using assms map_nth_upt [of 1024 data "\<lambda>b. (address s, OLED_DATA_MODE, b)"]
    by (simp add: wire_fold_write wire_setCharCursor)
  have b: "buffer ?s' c p = 0" if "c < 128" "p < 8" for c p
    using that by (simp add: clear_buffer)
  have r: "ram (device_of d0 ?s') p c = data ! (p * 128 + c)" if "p < 8" "c < 128" for p c
  proof -
    have "p * 128 + c < 1024" using that by simp
    then show ?thesis
      unfolding device_of_fold_write
      using that by (subst dev_stream) (simp_all add: device_of_setCharCursor)
  qed
  have x: "drawImage (data @ extra) s = Inr ?s'" for extra
    using assms e by (simp add: drawImage_extra)
  show ?thesis using e w b r x by (auto simp add: clear_device)
qed

text \<open>The ramp image on the global instance: the corners of the RAM.\<close>

theorem drawImage_streams_input_witness:
  "\<exists>s'. drawImage ramp OLED = Inr s'
     \<and> ram (device_of blank_device s') 0 0 = 0
     \<and> ram (device_of blank_device s') 0 127 = 127
     \<and> ram (device_of blank_device s') 1 0 = 128
     \<and> ram (device_of blank_device s') 7 127 = 255
     \<and> buffer s' 127 7 = 0"
proof -
  have l: "length ramp = 1024" by (simp add: ramp_def)
  from drawImage_streams_input [OF l, of OLED blank_device]
  obtain s' where s': "drawImage ramp OLED = Inr s'"
    and b: "\<forall>c<128. \<forall>p<8. buffer s' c p = 0"
    and r: "\<forall>p<8. \<forall>c<128. ram (device_of blank_device s') p c = ramp ! (p * 128 + c)"
    by blast
  from r [rule_format, of 0 0] r [rule_format, of 0 127] r [rule_format, of 1 0]
    r [rule_format, of 7 127] b [rule_format, of 127 7] s'
  show ?thesis by (simp add: ramp_def)
qed

section \<open>The progress bar\<close>

lemma bar_fold:
  "fold (\<lambda>i. if percent \<ge> int i then priv_write 0x7E OLED_DATA_MODE
             else priv_write 0x42 OLED_DATA_MODE) xs s
   = fold (\<lambda>i. priv_write (if int i \<le> percent then 0x7E else 0x42) OLED_DATA_MODE) xs s"
  by (rule fold_cong) auto

lemma clearCharRow_cells:
  assumes "0 \<le> X" "X < 8" "n \<le> 16"
  shows "\<exists>s'. fold (\<lambda>j r. case r of
                        Inl e \<Rightarrow> Inl e
                      | Inr s' \<Rightarrow>
                          (case priv_clearCharBuffer X (int j) s' of
                             Inl e \<Rightarrow> Inl e
                           | Inr s1 \<Rightarrow> Inr (priv_clearCharScreen X (int j) s1)))
                [0 ..< n] (Inr s) = Inr s' \<and> address s' = address s
     \<and> buffer s' = (\<lambda>c p. if p = nat X \<and> c < 8 * n then 0 else buffer s c p)"
  using assms(3)
proof (induction n)
  case 0
  then show ?case by simp
next
  case (Suc n)
  then obtain s1 where s1: "fold (\<lambda>j r. case r of
                        Inl e \<Rightarrow> Inl e
                      | Inr s' \<Rightarrow>
                          (case priv_clearCharBuffer X (int j) s' of
                             Inl e \<Rightarrow> Inl e
                           | Inr s1 \<Rightarrow> Inr (priv_clearCharScreen X (int j) s1)))
                [0 ..< n] (Inr s) = Inr s1" "address s1 = address s"
      "buffer s1 = (\<lambda>c p. if p = nat X \<and> c < 8 * n then 0 else buffer s c p)"
    by auto
  have "0 \<le> int n" "int n < 16" using Suc.prems by auto
  from clearCell_step [OF assms(1,2) this, of s1 blank_device] s1
  show ?case by (auto simp add: fun_eq_iff)
qed

lemma clearCharRow_eq:
  assumes "0 \<le> X" "X < 8"
  shows "\<exists>s'. clearCharRow X s = Inr s' \<and> address s' = address s
     \<and> buffer s' = (\<lambda>c p. if p = nat X \<and> c < 128 then 0 else buffer s c p)"
  using clearCharRow_cells [OF assms, of 16 s]
  by (auto simp add: clearCharRow_def OLED_WIDTH_def)

lemma drawProgressBar_eq:
  assumes "(if percent = 0 then clearCharRow X s else Inr s) = Inr s0"
  shows "\<exists>s'. drawProgressBar X percent s = Inr s' \<and> address s' = address s0
     \<and> buffer s' = buffer s0
     \<and> wire s' = wire s0
         @ cursor_cmds (address s0) X 12 @ [(address s0, OLED_DATA_MODE, 0x7E)]
         @ cursor_cmds (address s0) X 113 @ [(address s0, OLED_DATA_MODE, 0x7E)]
         @ cursor_cmds (address s0) X 13
         @ map (\<lambda>b. (address s0, OLED_DATA_MODE, b)) (bar_body percent)"
  unfolding drawProgressBar_def assms bar_fold
  by (simp add: Let_def wire_fold_write wire_setCursor bar_body_def comp_def)

lemma drawProgressBar_fun:
  assumes "(if percent = 0 then clearCharRow X s else Inr s) = Inr s0"
  shows "drawProgressBar X percent s =
     Inr (fold (\<lambda>i. priv_write (if int i \<le> percent then 0x7E else 0x42) OLED_DATA_MODE) [0 ..< 100]
           (setCursor X 13 (priv_write 0x7E OLED_DATA_MODE (setCursor X 113
             (priv_write 0x7E OLED_DATA_MODE (setCursor X 12 s0))))))"
  unfolding drawProgressBar_def assms bar_fold by (simp only: Let_def sum.case)

lemma clearCell_full:
  assumes "0 \<le> X" "X < 8" "0 \<le> Y" "Y < 16"
  shows "\<exists>s'. (case priv_clearCharBuffer X Y s of
                 Inl e \<Rightarrow> Inl e
               | Inr s1 \<Rightarrow> Inr (priv_clearCharScreen X Y s1)) = Inr s'
     \<and> address s' = address s
     \<and> buffer s' = (\<lambda>c p. if p = nat X \<and> nat (8 * Y) \<le> c \<and> c < nat (8 * Y) + 8
                            then 0 else buffer s c p)
     \<and> (\<forall>p<8. \<forall>c<128. ram (device_of d0 s') p c =
            (if p = nat X \<and> nat (8 * Y) \<le> c \<and> c < nat (8 * Y) + 8
             then 0 else ram (device_of d0 s) p c))
     \<and> wire s' = wire s @ cursor_cmds (address s) X (8 * Y)
                  @ replicate 8 (address s, OLED_DATA_MODE, 0)"
proof -
  from clearCell_step [OF assms, of s d0] obtain s' where
    s': "(case priv_clearCharBuffer X Y s of
                 Inl e \<Rightarrow> Inl e
               | Inr s1 \<Rightarrow> Inr (priv_clearCharScreen X Y s1)) = Inr s'"
     "address s' = address s"
     "buffer s' = (\<lambda>c p. if p = nat X \<and> nat (8 * Y) \<le> c \<and> c < nat (8 * Y) + 8
                            then 0 else buffer s c p)"
     "\<forall>p<8. \<forall>c<128. ram (device_of d0 s') p c =
            (if p = nat X \<and> nat (8 * Y) \<le> c \<and> c < nat (8 * Y) + 8
             then 0 else ram (device_of d0 s) p c)"
    by blast
  have "wire s' = wire s @ cursor_cmds (address s) X (8 * Y)
                  @ replicate 8 (address s, OLED_DATA_MODE, 0)"
    using s'(1) by (auto simp add: priv_clearCharBuffer_eq [OF assms] wire_priv_clearCharScreen)
  with s' show ?thesis by blast
qed

lemma clearCharRow_full:
  assumes "0 \<le> X" "X < 8" "n \<le> 16"
  shows "\<exists>s'. fold (\<lambda>j r. case r of
                        Inl e \<Rightarrow> Inl e
                      | Inr s' \<Rightarrow>
                          (case priv_clearCharBuffer X (int j) s' of
                             Inl e \<Rightarrow> Inl e
                           | Inr s1 \<Rightarrow> Inr (priv_clearCharScreen X (int j) s1)))
                [0 ..< n] (Inr s) = Inr s' \<and> address s' = address s
     \<and> buffer s' = (\<lambda>c p. if p = nat X \<and> c < 8 * n then 0 else buffer s c p)
     \<and> (\<forall>p<8. \<forall>c<128. ram (device_of d0 s') p c =
            (if p = nat X \<and> c < 8 * n then 0 else ram (device_of d0 s) p c))
     \<and> wire s' = wire s @ row_clear_cmds (address s) X n"
  using assms(3)
proof (induction n)
  case 0
  then show ?case by (simp add: row_clear_cmds_def)
next
  case (Suc n)
  then obtain s1 where s1: "fold (\<lambda>j r. case r of
                        Inl e \<Rightarrow> Inl e
                      | Inr s' \<Rightarrow>
                          (case priv_clearCharBuffer X (int j) s' of
                             Inl e \<Rightarrow> Inl e
                           | Inr s1 \<Rightarrow> Inr (priv_clearCharScreen X (int j) s1)))
                [0 ..< n] (Inr s) = Inr s1" "address s1 = address s"
      "buffer s1 = (\<lambda>c p. if p = nat X \<and> c < 8 * n then 0 else buffer s c p)"
      "\<forall>p<8. \<forall>c<128. ram (device_of d0 s1) p c =
            (if p = nat X \<and> c < 8 * n then 0 else ram (device_of d0 s) p c)"
      "wire s1 = wire s @ row_clear_cmds (address s) X n"
    by auto
  have "0 \<le> int n" "int n < 16" using Suc.prems by auto
  from clearCell_full [OF assms(1,2) this, of s1 d0] obtain s2 where
    s2: "(case priv_clearCharBuffer X (int n) s1 of
                 Inl e \<Rightarrow> Inl e
               | Inr s1 \<Rightarrow> Inr (priv_clearCharScreen X (int n) s1)) = Inr s2"
     "address s2 = address s1"
     "buffer s2 = (\<lambda>c p. if p = nat X \<and> nat (8 * int n) \<le> c \<and> c < nat (8 * int n) + 8
                            then 0 else buffer s1 c p)"
     "\<forall>p<8. \<forall>c<128. ram (device_of d0 s2) p c =
            (if p = nat X \<and> nat (8 * int n) \<le> c \<and> c < nat (8 * int n) + 8
             then 0 else ram (device_of d0 s1) p c)"
     "wire s2 = wire s1 @ cursor_cmds (address s1) X (8 * int n)
                  @ replicate 8 (address s1, OLED_DATA_MODE, 0)"
    by blast
  have n8: "nat (8 * int n) = 8 * n" by simp
  have e: "fold (\<lambda>j r. case r of
                        Inl e \<Rightarrow> Inl e
                      | Inr s' \<Rightarrow>
                          (case priv_clearCharBuffer X (int j) s' of
                             Inl e \<Rightarrow> Inl e
                           | Inr s1 \<Rightarrow> Inr (priv_clearCharScreen X (int j) s1)))
                [0 ..< Suc n] (Inr s) = Inr s2"
    using s1(1) s2(1) by simp
  have b: "buffer s2 = (\<lambda>c p. if p = nat X \<and> c < 8 * Suc n then 0 else buffer s c p)"
    unfolding s2(3) s1(3) n8 by (auto simp add: fun_eq_iff)
  have r: "\<forall>p<8. \<forall>c<128. ram (device_of d0 s2) p c =
            (if p = nat X \<and> c < 8 * Suc n then 0 else ram (device_of d0 s) p c)"
    using s2(4) s1(4) unfolding n8 by auto
  have w: "wire s2 = wire s @ row_clear_cmds (address s) X (Suc n)"
    unfolding s2(5) s1(5) s1(2) by (simp add: row_clear_cmds_def)
  from e s2(2) s1(2) b r w show ?case by auto
qed

lemma clearCharRow_all:
  assumes "0 \<le> X" "X < 8"
  shows "\<exists>s'. clearCharRow X s = Inr s' \<and> address s' = address s
     \<and> buffer s' = (\<lambda>c p. if p = nat X \<and> c < 128 then 0 else buffer s c p)
     \<and> (\<forall>p<8. \<forall>c<128. ram (device_of d0 s') p c =
            (if p = nat X then 0 else ram (device_of d0 s) p c))
     \<and> wire s' = wire s @ row_clear_cmds (address s) X 16 @ cursor_cmds (address s) 0 0"
proof -
  from clearCharRow_full [OF assms, of 16 s d0] obtain s1 where s1: "fold (\<lambda>j r. case r of
                        Inl e \<Rightarrow> Inl e
                      | Inr s' \<Rightarrow>
                          (case priv_clearCharBuffer X (int j) s' of
                             Inl e \<Rightarrow> Inl e
                           | Inr s1 \<Rightarrow> Inr (priv_clearCharScreen X (int j) s1)))
                [0 ..< 16] (Inr s) = Inr s1" "address s1 = address s"
      "buffer s1 = (\<lambda>c p. if p = nat X \<and> c < 8 * 16 then 0 else buffer s c p)"
      "\<forall>p<8. \<forall>c<128. ram (device_of d0 s1) p c =
            (if p = nat X \<and> c < 8 * 16 then 0 else ram (device_of d0 s) p c)"
      "wire s1 = wire s @ row_clear_cmds (address s) X 16"
    by auto
  have "clearCharRow X s = Inr (setCharCursor 0 0 s1)"
    using s1(1) by (simp add: clearCharRow_def OLED_WIDTH_def)
  then show ?thesis
    using s1(2-5) by (simp add: device_of_setCharCursor wire_setCharCursor)
qed

lemma progress_bar_device_full:
  fixes X percent :: int and s0 :: oled and d0 :: device
  assumes "0 \<le> X" "X < 8" "p < 8" "c < 128"
  defines "s' \<equiv> fold (\<lambda>i. priv_write (if int i \<le> percent then 0x7E else 0x42) OLED_DATA_MODE) [0 ..< 100]
           (setCursor X 13 (priv_write 0x7E OLED_DATA_MODE (setCursor X 113
             (priv_write 0x7E OLED_DATA_MODE (setCursor X 12 s0)))))"
  shows "ram (device_of d0 s') p c =
     (if p = nat X \<and> (c = 12 \<or> c = 113) then 0x7E
      else if p = nat X \<and> 13 \<le> c \<and> c < 113 then bar_body percent ! (c - 13)
      else ram (device_of d0 s0) p c)"
proof -
  let ?d2 = "device_of d0 (priv_write 0x7E OLED_DATA_MODE (setCursor X 113
             (priv_write 0x7E OLED_DATA_MODE (setCursor X 12 s0))))"
  have x: "nat X < 8" using assms by simp
  have d2: "ram ?d2 p c = (if p = nat X \<and> (c = 12 \<or> c = 113) then 0x7E
                            else ram (device_of d0 s0) p c)"
    using assms(1,2) by (auto simp add: device_of_setCursor dev_data_ram)
  have "ram (fold dev_data (bar_body percent) (?d2\<lparr>page := nat X, column := 13\<rparr>)) p c =
      (if nat X * 128 + 13 \<le> p * 128 + c \<and> p * 128 + c < nat X * 128 + 13 + length (bar_body percent)
       then bar_body percent ! (p * 128 + c - (nat X * 128 + 13)) else ram ?d2 p c)"
    using x assms(3,4) by (subst dev_stream) (simp_all add: bar_body_def)
  moreover have "length (bar_body percent) = 100" by (simp add: bar_body_def)
  ultimately have "ram (fold dev_data (bar_body percent) (?d2\<lparr>page := nat X, column := 13\<rparr>)) p c =
      (if p = nat X \<and> 13 \<le> c \<and> c < 113 then bar_body percent ! (c - 13) else ram ?d2 p c)"
    using page_window [of c 13 100 "nat X" p] assms(4) by auto
  moreover have "device_of d0 s' = fold dev_data (bar_body percent) (?d2\<lparr>page := nat X, column := 13\<rparr>)"
    using assms(1,2) unfolding s'_def device_of_fold_write
    by (simp add: device_of_setCursor bar_body_def)
  ultimately show ?thesis unfolding d2 by auto
qed

text \<open>
  C6: for every character row \<open>X\<close> in 0..7 and every percent in 0..100,
  \<open>drawProgressBar(X, percent)\<close> returns. Exactly when \<open>percent\<close> is 0 it first clears
  the character row as \<open>clearCharRow(X)\<close> does: the shadow bytes of all 128 columns of
  page \<open>X\<close> become zero, sixteen cells of cursor commands and eight zero bytes go to the
  device, then the cursor commands for cell (0, 0), and the device row \<open>X\<close> is zero;
  otherwise it starts from the state as it is. It then positions at column 12 of page
  \<open>X\<close> and writes \<open>0x7E\<close>, positions at column 113 and writes \<open>0x7E\<close>, positions at
  column 13 and streams 100 bytes, byte \<open>i\<close> being \<open>0x7E\<close> if \<open>i \<le> percent\<close> and \<open>0x42\<close>
  otherwise. The bar itself leaves the shadow buffer alone; the device then holds the
  markers at columns 12 and 113 and body byte \<open>i\<close> at column \<open>13 + i\<close> of page \<open>X\<close>, and
  every other byte of the RAM is as it was after the clearing (or before the call when
  \<open>percent\<close> is not 0).
\<close>

theorem drawProgressBar_layout:
  assumes "0 \<le> X" "X < 8" "0 \<le> percent" "percent \<le> 100"
  shows "\<exists>s0 s'.
      (if percent = 0
       then clearCharRow X s = Inr s0
          \<and> buffer s0 = (\<lambda>c p. if p = nat X \<and> c < 128 then 0 else buffer s c p)
          \<and> wire s0 = wire s @ row_clear_cmds (address s) X 16 @ cursor_cmds (address s) 0 0
          \<and> (\<forall>p<8. \<forall>c<128. ram (device_of d0 s0) p c =
                (if p = nat X then 0 else ram (device_of d0 s) p c))
       else s0 = s)
    \<and> drawProgressBar X percent s = Inr s'
    \<and> buffer s' = buffer s0
    \<and> wire s' = wire s0
         @ cursor_cmds (address s) X 12 @ [(address s, OLED_DATA_MODE, 0x7E)]
         @ cursor_cmds (address s) X 113 @ [(address s, OLED_DATA_MODE, 0x7E)]
         @ cursor_cmds (address s) X 13
         @ map (\<lambda>i. (address s, OLED_DATA_MODE, if int i \<le> percent then 0x7E else 0x42))
               [0 ..< 100]
    \<and> ram (device_of d0 s') (nat X) 12 = 0x7E
    \<and> ram (device_of d0 s') (nat X) 113 = 0x7E
    \<and> (\<forall>i<100. ram (device_of d0 s') (nat X) (13 + i)
                  = (if int i \<le> percent then 0x7E else 0x42))
    \<and> (\<forall>p<8. \<forall>c<128. (p \<noteq> nat X \<or> c < 12 \<or> 113 < c)
           \<longrightarrow> ram (device_of d0 s') p c = ram (device_of d0 s0) p c)"
proof -
  obtain s0 where s0: "(if percent = 0 then clearCharRow X s else Inr s) = Inr s0"
    and a: "address s0 = address s"
    and c: "percent = 0 \<longrightarrow>
          buffer s0 = (\<lambda>c p. if p = nat X \<and> c < 128 then 0 else buffer s c p)
          \<and> wire s0 = wire s @ row_clear_cmds (address s) X 16 @ cursor_cmds (address s) 0 0
          \<and> (\<forall>p<8. \<forall>c<128. ram (device_of d0 s0) p c =
                (if p = nat X then 0 else ram (device_of d0 s) p c))"
    using clearCharRow_all [OF assms(1,2), of s d0] by (cases "percent = 0") auto
  let ?s' = "fold (\<lambda>i. priv_write (if int i \<le> percent then 0x7E else 0x42) OLED_DATA_MODE) [0 ..< 100]
           (setCursor X 13 (priv_write 0x7E OLED_DATA_MODE (setCursor X 113
             (priv_write 0x7E OLED_DATA_MODE (setCursor X 12 s0)))))"
  have e: "drawProgressBar X percent s = Inr ?s'" by (rule drawProgressBar_fun [OF s0])
  have bf: "buffer ?s' = buffer s0" by simp
  have w: "wire ?s' = wire s0
         @ cursor_cmds (address s) X 12 @ [(address s, OLED_DATA_MODE, 0x7E)]
         @ cursor_cmds (address s) X 113 @ [(address s, OLED_DATA_MODE, 0x7E)]
         @ cursor_cmds (address s) X 13
         @ map (\<lambda>i. (address s, OLED_DATA_MODE, if int i \<le> percent then 0x7E else 0x42))
               [0 ..< 100]"
    by (simp add: wire_fold_write wire_setCursor a)
  have b: "bar_body percent ! i = (if int i \<le> percent then 0x7E else 0x42)" if "i < 100" for i
    using that by (simp add: bar_body_def)
  have x: "nat X < 8" using assms by simp
  have r: "ram (device_of d0 ?s') p c =
     (if p = nat X \<and> (c = 12 \<or> c = 113) then 0x7E
      else if p = nat X \<and> 13 \<le> c \<and> c < 113 then bar_body percent ! (c - 13)
      else ram (device_of d0 s0) p c)" if "p < 8" "c < 128" for p c
    using progress_bar_device_full [OF assms(1,2) that, where percent = percent and ?s0.0 = s0 and ?d0.0 = d0] .
  have m: "ram (device_of d0 ?s') (nat X) 12 = 0x7E" "ram (device_of d0 ?s') (nat X) 113 = 0x7E"
    using r [of "nat X" 12] r [of "nat X" 113] x by simp_all
  have body: "\<forall>i<100. ram (device_of d0 ?s') (nat X) (13 + i)
                  = (if int i \<le> percent then 0x7E else 0x42)"
    using r [of "nat X"] x b by simp
  have rest: "\<forall>p<8. \<forall>c<128. (p \<noteq> nat X \<or> c < 12 \<or> 113 < c)
           \<longrightarrow> ram (device_of d0 ?s') p c = ram (device_of d0 s0) p c"
    using r by auto
  have first: "(if percent = 0
       then clearCharRow X s = Inr s0
          \<and> buffer s0 = (\<lambda>c p. if p = nat X \<and> c < 128 then 0 else buffer s c p)
          \<and> wire s0 = wire s @ row_clear_cmds (address s) X 16 @ cursor_cmds (address s) 0 0
          \<and> (\<forall>p<8. \<forall>c<128. ram (device_of d0 s0) p c =
                (if p = nat X then 0 else ram (device_of d0 s) p c))
       else s0 = s)"
    using s0 c by (cases "percent = 0") auto
  show ?thesis
    using first e bf w m body rest
    by (intro exI [of _ s0] exI [of _ ?s']) (simp only: simp_thms)
qed

text \<open>
  Row 2 at 0 percent and row 3 at 50 percent, over a buffer and a device of all ones: at
  0 percent the shadow row and the device row outside the bar are cleared and the first
  body byte is filled; at 50 percent nothing is cleared.
\<close>

theorem drawProgressBar_layout_witness:
  "(\<exists>s'. drawProgressBar 2 0 (OLED\<lparr>buffer := (\<lambda>_ _. 0xFF)\<rparr>) = Inr s'
      \<and> buffer s' 0 2 = 0 \<and> buffer s' 127 2 = 0 \<and> buffer s' 0 1 = 0xFF
      \<and> ram (device_of lit_device s') 2 0 = 0
      \<and> ram (device_of lit_device s') 2 12 = 0x7E
      \<and> ram (device_of lit_device s') 2 13 = 0x7E
      \<and> ram (device_of lit_device s') 2 14 = 0x42
      \<and> ram (device_of lit_device s') 2 113 = 0x7E
      \<and> ram (device_of lit_device s') 2 127 = 0
      \<and> ram (device_of lit_device s') 1 0 = 0xFF)
   \<and> (\<exists>s'. drawProgressBar 3 50 (OLED\<lparr>buffer := (\<lambda>_ _. 0xFF)\<rparr>) = Inr s'
      \<and> buffer s' 0 3 = 0xFF
      \<and> ram (device_of lit_device s') 3 0 = 0xFF
      \<and> ram (device_of lit_device s') 3 12 = 0x7E
      \<and> ram (device_of lit_device s') 3 113 = 0x7E
      \<and> ram (device_of lit_device s') 3 63 = 0x7E
      \<and> ram (device_of lit_device s') 3 64 = 0x42)"
proof
  let ?s = "OLED\<lparr>buffer := (\<lambda>_ _. 0xFF)\<rparr>"
  have l: "ram (device_of lit_device OLED) p c = 0xFF" for p c
    by (simp add: device_of_def dev_run_def OLED_def lit_device_def)
  from drawProgressBar_layout [of 2 0 ?s lit_device]
  obtain s0 s' where s': "drawProgressBar 2 0 ?s = Inr s'"
    and b0: "buffer s0 = (\<lambda>c p. if p = nat 2 \<and> c < 128 then 0 else buffer ?s c p)"
    and r0: "\<forall>p<8. \<forall>c<128. ram (device_of lit_device s0) p c =
                (if p = nat 2 then 0 else ram (device_of lit_device ?s) p c)"
    and b: "buffer s' = buffer s0"
    and m: "ram (device_of lit_device s') (nat 2) 12 = 0x7E"
       "ram (device_of lit_device s') (nat 2) 113 = 0x7E"
    and body: "\<forall>i<100. ram (device_of lit_device s') (nat 2) (13 + i)
                  = (if int i \<le> 0 then 0x7E else 0x42)"
    and rest: "\<forall>p<8. \<forall>c<128. (p \<noteq> nat 2 \<or> c < 12 \<or> 113 < c)
           \<longrightarrow> ram (device_of lit_device s') p c = ram (device_of lit_device s0) p c"
    by auto
  from rest [rule_format, of 2 0] rest [rule_format, of 2 127] rest [rule_format, of 1 0]
    r0 [rule_format, of 2 0] r0 [rule_format, of 2 127] r0 [rule_format, of 1 0]
  have "ram (device_of lit_device s') 2 0 = 0" "ram (device_of lit_device s') 2 127 = 0"
    "ram (device_of lit_device s') 1 0 = 0xFF"
    by (simp_all add: l)
  moreover from body [rule_format, of 0] body [rule_format, of 1]
  have "ram (device_of lit_device s') 2 13 = 0x7E" "ram (device_of lit_device s') 2 14 = 0x42"
    by simp_all
  moreover have "buffer s' 0 2 = 0" "buffer s' 127 2 = 0" "buffer s' 0 1 = 0xFF"
    unfolding b b0 by simp_all
  ultimately show "\<exists>s'. drawProgressBar 2 0 ?s = Inr s'
      \<and> buffer s' 0 2 = 0 \<and> buffer s' 127 2 = 0 \<and> buffer s' 0 1 = 0xFF
      \<and> ram (device_of lit_device s') 2 0 = 0
      \<and> ram (device_of lit_device s') 2 12 = 0x7E
      \<and> ram (device_of lit_device s') 2 13 = 0x7E
      \<and> ram (device_of lit_device s') 2 14 = 0x42
      \<and> ram (device_of lit_device s') 2 113 = 0x7E
      \<and> ram (device_of lit_device s') 2 127 = 0
      \<and> ram (device_of lit_device s') 1 0 = 0xFF"
    using s' m by simp
next
  let ?s = "OLED\<lparr>buffer := (\<lambda>_ _. 0xFF)\<rparr>"
  have l: "ram (device_of lit_device OLED) p c = 0xFF" for p c
    by (simp add: device_of_def dev_run_def OLED_def lit_device_def)
  from drawProgressBar_layout [of 3 50 ?s lit_device]
  obtain s' where s': "drawProgressBar 3 50 ?s = Inr s'"
    and b: "buffer s' = buffer ?s"
    and m: "ram (device_of lit_device s') (nat 3) 12 = 0x7E"
       "ram (device_of lit_device s') (nat 3) 113 = 0x7E"
    and body: "\<forall>i<100. ram (device_of lit_device s') (nat 3) (13 + i)
                  = (if int i \<le> 50 then 0x7E else 0x42)"
    and rest: "\<forall>p<8. \<forall>c<128. (p \<noteq> nat 3 \<or> c < 12 \<or> 113 < c)
           \<longrightarrow> ram (device_of lit_device s') p c = ram (device_of lit_device ?s) p c"
    by auto
  from rest [rule_format, of 3 0] have "ram (device_of lit_device s') 3 0 = 0xFF"
    by (simp add: l)
  moreover from body [rule_format, of 50] body [rule_format, of 51]
  have "ram (device_of lit_device s') 3 63 = 0x7E" "ram (device_of lit_device s') 3 64 = 0x42"
    by simp_all
  moreover have "buffer s' 0 3 = 0xFF" unfolding b by simp
  ultimately show "\<exists>s'. drawProgressBar 3 50 ?s = Inr s'
      \<and> buffer s' 0 3 = 0xFF
      \<and> ram (device_of lit_device s') 3 0 = 0xFF
      \<and> ram (device_of lit_device s') 3 12 = 0x7E
      \<and> ram (device_of lit_device s') 3 113 = 0x7E
      \<and> ram (device_of lit_device s') 3 63 = 0x7E
      \<and> ram (device_of lit_device s') 3 64 = 0x42"
    using s' m by simp
qed

lemma bar_body_0: "bar_body 0 = 0x7E # replicate 99 0x42"
  by (rule nth_equalityI) (auto simp add: bar_body_def nth_Cons')

lemma bar_body_100: "bar_body 100 = replicate 100 0x7E"
  by (rule nth_equalityI) (auto simp add: bar_body_def)

lemma progress_bar_0_then_100_eq:
  assumes "0 \<le> X" "X < 8"
  shows "\<exists>s1 s2 w1 w2. drawProgressBar X 0 s = Inr s1 \<and> drawProgressBar X 100 s1 = Inr s2
    \<and> wire s1 = w1 @ cursor_cmds (address s) X 13
                 @ map (\<lambda>b. (address s, OLED_DATA_MODE, b)) (0x7E # replicate 99 0x42)
    \<and> wire s2 = w2 @ cursor_cmds (address s) X 13
                 @ map (\<lambda>b. (address s, OLED_DATA_MODE, b)) (replicate 100 0x7E)"
proof -
  obtain s0 where s0: "(if (0::int) = 0 then clearCharRow X s else Inr s) = Inr s0"
    and a0: "address s0 = address s"
    using clearCharRow_eq [OF assms, of s] by auto
  from drawProgressBar_eq [OF s0] obtain s1 where
    s1: "drawProgressBar X 0 s = Inr s1" "address s1 = address s"
    and w1: "wire s1 = (wire s0
         @ cursor_cmds (address s) X 12 @ [(address s, OLED_DATA_MODE, 0x7E)]
         @ cursor_cmds (address s) X 113 @ [(address s, OLED_DATA_MODE, 0x7E)])
         @ cursor_cmds (address s) X 13
         @ map (\<lambda>b. (address s, OLED_DATA_MODE, b)) (bar_body 0)"
    using a0 by auto
  have "(if (100::int) = 0 then clearCharRow X s1 else Inr s1) = Inr s1" by simp
  from drawProgressBar_eq [OF this] obtain s2 where
    s2: "drawProgressBar X 100 s1 = Inr s2"
    and w2: "wire s2 = (wire s1
         @ cursor_cmds (address s) X 12 @ [(address s, OLED_DATA_MODE, 0x7E)]
         @ cursor_cmds (address s) X 113 @ [(address s, OLED_DATA_MODE, 0x7E)])
         @ cursor_cmds (address s) X 13
         @ map (\<lambda>b. (address s, OLED_DATA_MODE, b)) (bar_body 100)"
    using s1(2) by auto
  show ?thesis
    using s1(1) s2 w1 w2 unfolding bar_body_0 bar_body_100 by blast
qed

text \<open>
  C3, as stated: the 100 body bytes of \<open>drawProgressBar(X, 0)\<close>, sent after positioning at
  column 13, are all \<open>0x42\<close>. On the global instance and row 0 no such run of the call
  exists: the first body byte is \<open>0x7E\<close>.
\<close>

theorem bar_at_0_all_empty_counterexample:
  "\<not> (\<exists>s1 w. drawProgressBar 0 0 OLED = Inr s1
        \<and> wire s1 = w @ cursor_cmds (address OLED) 0 13
                     @ map (\<lambda>b. (address OLED, OLED_DATA_MODE, b)) (replicate 100 0x42))"
proof
  assume "\<exists>s1 w. drawProgressBar 0 0 OLED = Inr s1
        \<and> wire s1 = w @ cursor_cmds (address OLED) 0 13
                     @ map (\<lambda>b. (address OLED, OLED_DATA_MODE, b)) (replicate 100 0x42)"
  then obtain s1 w where s1: "drawProgressBar 0 0 OLED = Inr s1"
    and w: "wire s1 = (w @ cursor_cmds (address OLED) 0 13)
                     @ map (\<lambda>b. (address OLED, OLED_DATA_MODE, b)) (replicate 100 0x42)"
    by auto
  from progress_bar_0_then_100_eq [of 0 OLED] s1 obtain w1 where
    "wire s1 = (w1 @ cursor_cmds (address OLED) 0 13)
                 @ map (\<lambda>b. (address OLED, OLED_DATA_MODE, b)) (0x7E # replicate 99 0x42)"
    by auto
  with w have "map (\<lambda>b. (address OLED, OLED_DATA_MODE, b)) (replicate 100 0x42)
      = map (\<lambda>b. (address OLED, OLED_DATA_MODE, b)) (0x7E # replicate 99 (0x42::byte))"
    by (simp only: append_eq_append_conv length_map length_replicate list.size) simp
  then have "hd (map (\<lambda>b. (address OLED, OLED_DATA_MODE, b)) (replicate 100 0x42))
      = hd (map (\<lambda>b. (address OLED, OLED_DATA_MODE, b)) (0x7E # replicate 99 (0x42::byte)))"
    by (rule arg_cong)
  then show False by (simp add: hd_map)
qed

text \<open>
  C3, amended: for every character row \<open>X\<close> in 0..7, \<open>drawProgressBar(X, 0)\<close> followed by
  \<open>drawProgressBar(X, 100)\<close>: both calls return; the 100 body bytes sent after
  positioning at column 13 are \<open>0x7E\<close> at index 0 followed by 99 bytes \<open>0x42\<close> in the
  first call (index 0 satisfies \<open>percent >= i\<close>), and 100 bytes \<open>0x7E\<close> in the second.
\<close>

theorem progress_bar_0_then_100:
  assumes "0 \<le> X" "X < 8"
  shows "\<exists>s1 s2 w1 w2. drawProgressBar X 0 s = Inr s1 \<and> drawProgressBar X 100 s1 = Inr s2
    \<and> wire s1 = w1 @ cursor_cmds (address s) X 13
                 @ map (\<lambda>b. (address s, OLED_DATA_MODE, b)) (0x7E # replicate 99 0x42)
    \<and> wire s2 = w2 @ cursor_cmds (address s) X 13
                 @ map (\<lambda>b. (address s, OLED_DATA_MODE, b)) (replicate 100 0x7E)"
  using assms by (rule progress_bar_0_then_100_eq)

text \<open>Row 2 of the global instance.\<close>

theorem progress_bar_0_then_100_witness:
  "\<exists>s1 s2 w1 w2. drawProgressBar 2 0 OLED = Inr s1 \<and> drawProgressBar 2 100 s1 = Inr s2
    \<and> wire s1 = w1 @ cursor_cmds 0x3C 2 13
                 @ map (\<lambda>b. (0x3C, OLED_DATA_MODE, b)) (0x7E # replicate 99 0x42)
    \<and> wire s2 = w2 @ cursor_cmds 0x3C 2 13
                 @ map (\<lambda>b. (0x3C, OLED_DATA_MODE, b)) (replicate 100 0x7E)"
proof -
  have a: "address OLED = 0x3C" by (simp add: OLED_def OLED_ADDRESS_def)
  show ?thesis using progress_bar_0_then_100 [of 2 OLED] unfolding a by simp
qed

section \<open>The invariant, as the code keeps it\<close>

lemma buffer_drawImage_loop:
  "drawImage_loop data is s = Inr s' \<Longrightarrow> buffer s' = buffer s"
  by (induction data "is" s rule: drawImage_loop.induct) (auto split: if_splits)

lemma buffer_drawImage:
  "drawImage data s = Inr s' \<Longrightarrow> buffer s' = buffer (clear s)"
  using buffer_drawImage_loop [of data _ "setCharCursor 0 0 (clear s)" s']
  by (simp add: drawImage_def)

lemma buffer_drawProgressBar:
  assumes "drawProgressBar X percent s = Inr s'"
  shows "\<exists>s0. (if percent = 0 then clearCharRow X s = Inr s0 else s0 = s)
           \<and> buffer s' = buffer s0"
proof (cases "if percent = 0 then clearCharRow X s else Inr s")
  case (Inl e)
  then have "drawProgressBar X percent s = Inl e"
    unfolding drawProgressBar_def by (simp only: sum.case)
  with assms show ?thesis by simp
next
  case (Inr s0)
  from drawProgressBar_eq [OF Inr] assms have "buffer s' = buffer s0" by auto
  moreover from Inr have "if percent = 0 then clearCharRow X s = Inr s0 else s0 = s"
    by (cases "percent = 0") auto
  ultimately show ?thesis by blast
qed

text \<open>
  C1, amended. From a cleared state (any state after \<open>clear\<close>, whatever the device held
  before), every finite sequence of calls of \<open>init\<close>, \<open>clear\<close>, \<open>clearChar\<close>,
  \<open>clearCharRow\<close>, \<open>setPixel\<close>, \<open>setInvertedDisplay\<close>, \<open>powerOn\<close> and \<open>powerOff\<close> with
  arguments in their documented ranges returns, and afterwards every shadow byte
  \<open>[column][page]\<close> equals the byte the device holds at that page and column. The data
  bytes that \<open>drawStr\<close>, \<open>drawVLine\<close>, \<open>drawHLine\<close>, \<open>drawImage\<close> and \<open>drawProgressBar\<close>
  stream to the device are not written to the shadow buffer: \<open>drawStr\<close>, \<open>drawVLine\<close>
  and every returning \<open>drawHLine\<close> leave the buffer as it was, \<open>drawImage\<close> leaves it as
  its initial \<open>clear\<close> left it, and \<open>drawProgressBar\<close> leaves it as it was, or as its
  \<open>clearCharRow\<close> left it when \<open>percent\<close> is 0.
\<close>

theorem tracked_calls_mirror:
  "((\<forall>c \<in> set calls. tracked c \<and> in_range c)
      \<longrightarrow> (\<exists>s'. run_calls cs calls (clear s) = Some (Inr s') \<and> mirrors d0 s'))
   \<and> buffer (drawStr string X Y fnt t) = buffer t
   \<and> buffer (drawVLine col t) = buffer t
   \<and> (\<forall>t'. drawHLine cs row t = Some (Inr t') \<longrightarrow> buffer t' = buffer t)
   \<and> (\<forall>t'. drawImage data t = Inr t' \<longrightarrow> buffer t' = buffer (clear t))
   \<and> (\<forall>t'. drawProgressBar Xb percent t = Inr t' \<longrightarrow>
         (\<exists>t0. (if percent = 0 then clearCharRow Xb t = Inr t0 else t0 = t)
               \<and> buffer t' = buffer t0))"
  using run_calls_mirrors [of calls d0 "clear s" cs] mirrors_clear [of d0 s]
    buffer_drawHLine [of cs row t] buffer_drawImage [of data t]
    buffer_drawProgressBar [of Xb percent t]
  by (simp add: buffer_drawStr buffer_drawVLine)

text \<open>
  Nine tracked calls on the global instance against a device that was blank, and a
  horizontal line, an image and a progress bar whose bytes stay out of the buffer.
\<close>

theorem tracked_calls_mirror_witness:
  "(\<exists>s'. run_calls False [Init, SetPixel 9 5 True, ClearChar 1 2, SetPixel 63 127 True,
                            ClearCharRow 7, SetInvertedDisplay True, PowerOff, Clear, PowerOn]
            (clear OLED) = Some (Inr s') \<and> mirrors blank_device s')
   \<and> (\<exists>t'. drawHLine False 9 (clear OLED) = Some (Inr t') \<and> buffer t' = buffer (clear OLED))
   \<and> (\<exists>t'. drawImage ramp OLED = Inr t' \<and> buffer t' = buffer (clear OLED))
   \<and> (\<exists>t'. drawProgressBar 2 50 (OLED\<lparr>buffer := (\<lambda>_ _. 0xFF)\<rparr>) = Inr t'
           \<and> buffer t' = (\<lambda>_ _. 0xFF))"
proof -
  have h: "drawHLine False 9 (clear OLED) = Some (Inr (setCharCursor 0 0
       ((priv_write (push_bit (nat (9 mod 8)) 1) OLED_DATA_MODE ^^ 128)
          (setCharCursor (9 div 8) 0 (clear OLED)))))"
    by (rule drawHLine_unsigned_eq) simp
  have "length ramp = 1024" by (simp add: ramp_def)
  then obtain ti where i: "drawImage ramp OLED = Inr ti"
    using drawImage_eq [of ramp OLED] by simp
  have "(if (50::int) = 0 then clearCharRow 2 (OLED\<lparr>buffer := (\<lambda>_ _. 0xFF)\<rparr>)
         else Inr (OLED\<lparr>buffer := (\<lambda>_ _. 0xFF)\<rparr>)) = Inr (OLED\<lparr>buffer := (\<lambda>_ _. 0xFF)\<rparr>)"
    by simp
  from drawProgressBar_eq [OF this]
  obtain tb where b: "drawProgressBar 2 50 (OLED\<lparr>buffer := (\<lambda>_ _. 0xFF)\<rparr>) = Inr tb"
    by blast
  from tracked_calls_mirror
    [of "[Init, SetPixel 9 5 True, ClearChar 1 2, SetPixel 63 127 True,
          ClearCharRow 7, SetInvertedDisplay True, PowerOff, Clear, PowerOn]"
        False OLED blank_device "''Hi''" 1 2 plain_font "clear OLED" 3 9 ramp 2 50]
  have a: "\<exists>s'. run_calls False [Init, SetPixel 9 5 True, ClearChar 1 2, SetPixel 63 127 True,
                            ClearCharRow 7, SetInvertedDisplay True, PowerOff, Clear, PowerOn]
            (clear OLED) = Some (Inr s') \<and> mirrors blank_device s'"
    and hl: "\<forall>t'. drawHLine False 9 (clear OLED) = Some (Inr t') \<longrightarrow> buffer t' = buffer (clear OLED)"
    by simp_all
  from tracked_calls_mirror
    [of "[]" False OLED blank_device "''Hi''" 1 2 plain_font OLED 3 9 ramp 2 50]
  have im: "\<forall>t'. drawImage ramp OLED = Inr t' \<longrightarrow> buffer t' = buffer (clear OLED)"
    by simp
  from tracked_calls_mirror
    [of "[]" False OLED blank_device "''Hi''" 1 2 plain_font "OLED\<lparr>buffer := (\<lambda>_ _. 0xFF)\<rparr>"
        3 9 ramp 2 50]
  have pb: "\<forall>t'. drawProgressBar 2 50 (OLED\<lparr>buffer := (\<lambda>_ _. 0xFF)\<rparr>) = Inr t' \<longrightarrow>
         (\<exists>t0. (if (50::int) = 0 then clearCharRow 2 (OLED\<lparr>buffer := (\<lambda>_ _. 0xFF)\<rparr>) = Inr t0
                  else t0 = OLED\<lparr>buffer := (\<lambda>_ _. 0xFF)\<rparr>)
               \<and> buffer t' = buffer t0)"
    by simp
  from pb b have "buffer tb = (\<lambda>_ _. 0xFF)" by auto
  with a hl h im i b show ?thesis by auto
qed

end
